theory Spec2Isabelle
  imports Complex_Main
begin

section \<open>Numbers\<close>

text \<open>
  The program computes with JavaScript numbers.  The frame and guard properties of the solver,
  the climate and the terrain generator are stated over a model in which a finite number is
  the exact \<^typ>\<open>real\<close> it denotes.  The numeric properties of the solver and of the
  brush and the payload loader are stated over IEEE arithmetic (doubles, and the 32-bit
  rounding of a \<open>Float32Array\<close> store), introduced further down.  Grid sizes and loop
  counters that start at 0 are \<^typ>\<open>nat\<close>; rounded coordinates and the bounds of the
  brush loops are \<^typ>\<open>int\<close>.
\<close>

definition jsRound :: "real \<Rightarrow> int" where
  \<comment> \<open>\<open>Math.round\<close>: the nearest integer, a tie going up.\<close>
  "jsRound v = \<lfloor>v + 1 / 2\<rfloor>"

definition orZero :: "real option \<Rightarrow> real" where
  \<comment> \<open>\<open>value ?? 0\<close> for an optional numeric field.\<close>
  "orZero v = (case v of None \<Rightarrow> 0 | Some r \<Rightarrow> r)"

section \<open>Grid index utility (core/grid.ts)\<close>

definition clamp :: "real \<Rightarrow> real \<Rightarrow> real \<Rightarrow> real" where
  "clamp v lo hi = min hi (max lo v)"

definition toIndex :: "'a::semiring_0 \<Rightarrow> 'a \<Rightarrow> 'a \<Rightarrow> 'a" where
  "toIndex sz x y = y * sz + x"

definition inBounds :: "'a::{zero,linorder} \<Rightarrow> 'a \<Rightarrow> 'a \<Rightarrow> bool" where
  "inBounds sz x y \<longleftrightarrow> x \<ge> 0 \<and> x < sz \<and> y \<ge> 0 \<and> y < sz"

section \<open>Data model (core/types.ts)\<close>

text \<open>
  Field names carry a prefix because \<open>size\<close>, \<open>id\<close>, \<open>x\<close> and \<open>y\<close> are taken
  in HOL.  \<open>WorldState\<close> is polymorphic in the type of the grid size and of an array cell:
  the solver and the brush work on finite cells (\<^typ>\<open>real\<close>) of a grid whose size is a
  \<^typ>\<open>nat\<close>; terrain generation and loading can produce cells that are not finite.
  Arrays are values (lists), so \<open>terrain\<close> and \<open>water\<close> are two distinct arrays, as
  every constructor of the repository builds them.
\<close>

datatype ToolMode = Raise | Lower | Flatten | WaterSourceTool

record BrushSettings =
  b_radius :: real
  b_strength :: real
  b_flattenHeight :: real

record WaterSource =
  src_id :: string
  src_x :: real
  src_y :: real
  src_rate :: real
  src_active :: bool

record ('s, 'n) WorldState =
  ws_version :: nat
  ws_size :: 's
  ws_terrainSeed :: real
  ws_terrain :: "'n list"
  ws_water :: "'n list"
  ws_sources :: "WaterSource list"
  ws_vegetationSeed :: real
  ws_time :: real

record SimParams =
  p_dt :: real
  p_flowRate :: real
  p_damping :: real
  p_evaporation :: real
  p_seepage :: "real option"
  p_edgeDrain :: "real option"

type_synonym World = "(nat, real) WorldState"

definition cells :: "nat \<Rightarrow> (nat \<times> nat) list" where
  \<comment> \<open>The order of \<open>for y in 0..size-1: for x in 0..size-1\<close>, as pairs \<open>(x, y)\<close>.\<close>
  "cells sz = concat (map (\<lambda>y. map (\<lambda>x. (x, y)) [0..<sz]) [0..<sz])"

definition wellFormed :: "World \<Rightarrow> bool" where
  \<comment> \<open>The length invariant of the data model: both arrays hold \<open>size * size\<close> cells.\<close>
  "wellFormed state \<longleftrightarrow>
     length (ws_terrain state) = ws_size state * ws_size state \<and>
     length (ws_water state) = ws_size state * ws_size state"

section \<open>Water flow solver over exact reals (core/water.ts)\<close>

definition injectSource :: "real \<Rightarrow> WaterSource \<Rightarrow> World \<Rightarrow> World" where
  "injectSource dt source state =
     (if \<not> src_active source then state
      else
        let sx = jsRound (src_x source);
            sy = jsRound (src_y source)
        in if \<not> inBounds (int (ws_size state)) sx sy then state
           else
             let sourceIndex = nat (toIndex (int (ws_size state)) sx sy)
             in state\<lparr>ws_water := (ws_water state)
                  [sourceIndex := ws_water state ! sourceIndex + max 0 (src_rate source) * dt]\<rparr>)"

definition neighbourPotential :: "World \<Rightarrow> real \<Rightarrow> real \<Rightarrow> real \<Rightarrow> nat \<Rightarrow> real" where
  \<comment> \<open>The body shared by the four neighbour blocks of the outflow pass.\<close>
  "neighbourPotential state totalHeight flowRate dt nIndex =
     (let diff = totalHeight - (ws_terrain state ! nIndex + ws_water state ! nIndex)
      in if diff > 0 then diff * flowRate * dt else 0)"

definition transfer :: "nat \<Rightarrow> int \<Rightarrow> real \<Rightarrow> real \<Rightarrow> real list \<Rightarrow> real list" where
  \<comment> \<open>\<open>if (potential > 0 && nIndex >= 0) { delta[index] -= amount; delta[nIndex] += amount }\<close>\<close>
  "transfer index nIndex potential scale delta =
     (if potential > 0 \<and> nIndex \<ge> 0 then
        let amount = potential * scale;
            d = delta[index := delta ! index - amount]
        in d[nat nIndex := d ! nat nIndex + amount]
      else delta)"

definition flowCell :: "World \<Rightarrow> real \<Rightarrow> real \<Rightarrow> nat \<times> nat \<Rightarrow> real list \<Rightarrow> real list" where
  "flowCell state flowRate dt c delta =
     (case c of (x, y) \<Rightarrow>
      let sz = ws_size state;
          index = toIndex sz x y;
          currentWater = ws_water state ! index
      in if currentWater \<le> 0 then delta
         else
           let totalHeight = ws_terrain state ! index + currentWater;
               rightIndex = (if x + 1 < sz then int (toIndex sz (x + 1) y) else - 1);
               rightPotential = (if x + 1 < sz
                  then neighbourPotential state totalHeight flowRate dt (toIndex sz (x + 1) y)
                  else 0);
               leftIndex = (if int x - 1 \<ge> 0 then int (toIndex sz (x - 1) y) else - 1);
               leftPotential = (if int x - 1 \<ge> 0
                  then neighbourPotential state totalHeight flowRate dt (toIndex sz (x - 1) y)
                  else 0);
               upIndex = (if y + 1 < sz then int (toIndex sz x (y + 1)) else - 1);
               upPotential = (if y + 1 < sz
                  then neighbourPotential state totalHeight flowRate dt (toIndex sz x (y + 1))
                  else 0);
               downIndex = (if int y - 1 \<ge> 0 then int (toIndex sz x (y - 1)) else - 1);
               downPotential = (if int y - 1 \<ge> 0
                  then neighbourPotential state totalHeight flowRate dt (toIndex sz x (y - 1))
                  else 0);
               totalPotential = rightPotential + leftPotential + upPotential + downPotential
           in if totalPotential \<le> 0 then delta
              else
                let scale = min 1 (currentWater / totalPotential)
                in transfer index downIndex downPotential scale
                     (transfer index upIndex upPotential scale
                       (transfer index leftIndex leftPotential scale
                         (transfer index rightIndex rightPotential scale delta))))"

definition lossCell ::
  "real \<Rightarrow> real \<Rightarrow> real \<Rightarrow> real \<Rightarrow> real \<Rightarrow> real list \<Rightarrow> nat \<times> nat \<Rightarrow> World \<Rightarrow> World" where
  "lossCell dt dampingFactor evaporationLoss seepage edgeDrain delta c state =
     (case c of (x, y) \<Rightarrow>
      let sz = ws_size state;
          index = toIndex sz x y;
          withFlow = ws_water state ! index + delta ! index;
          seepLoss = withFlow * seepage * dt;
          next0 = withFlow * dampingFactor - evaporationLoss - seepLoss;
          isEdge = (x = 0 \<or> y = 0 \<or> int x = int sz - 1 \<or> int y = int sz - 1);
          next = (if isEdge \<and> next0 > 0 then next0 - edgeDrain * dt else next0)
      in state\<lparr>ws_water := (ws_water state)[index := max 0 next]\<rparr>)"

definition stepWater :: "World \<Rightarrow> SimParams \<Rightarrow> World" where
  "stepWater state params =
     (let dt = max 0.0001 (p_dt params);
          flowRate = max 0 (p_flowRate params);
          damping = max 0 (p_damping params);
          evaporation = max 0 (p_evaporation params);
          seepage = max 0 (orZero (p_seepage params));
          edgeDrain = max 0 (orZero (p_edgeDrain params));
          injected = fold (injectSource dt) (ws_sources state) state;
          delta = fold (flowCell injected flowRate dt) (cells (ws_size injected))
                    (replicate (length (ws_water injected)) 0);
          dampingFactor = clamp (1 - damping * dt) 0 1;
          evaporationLoss = evaporation * dt
      in fold (lossCell dt dampingFactor evaporationLoss seepage edgeDrain delta)
           (cells (ws_size injected)) injected)"



section \<open>Terrain height bounds (core/world.ts)\<close>

definition MIN_TERRAIN_HEIGHT :: real where "MIN_TERRAIN_HEIGHT = - 12"

definition MAX_TERRAIN_HEIGHT :: real where "MAX_TERRAIN_HEIGHT = 24"

text \<open>The height bounds of the data model.\<close>

definition inHeightRange :: "real \<Rightarrow> bool" where
  "inHeightRange v \<longleftrightarrow> MIN_TERRAIN_HEIGHT \<le> v \<and> v \<le> MAX_TERRAIN_HEIGHT"

section \<open>Climate state (main.ts)\<close>

record ClimateState =
  cl_dayPhase :: real
  cl_daylight :: real
  cl_cloudiness :: real
  cl_rainIntensity :: real
  cl_windStrength :: real
  cl_windDirection :: real
  cl_windGustiness :: real

record WeatherOverride =
  wo_cloudiness :: real
  wo_rainIntensity :: real

record WindOverride =
  wi_strength :: real
  wi_direction :: real
  wi_gustiness :: real

definition TAU :: real where "TAU = pi * 2"

definition jsRem :: "real \<Rightarrow> real \<Rightarrow> real" where
  \<comment> \<open>The remainder \<open>a % b\<close> of JavaScript for \<open>b \<noteq> 0\<close>: it has the sign of \<open>a\<close>.\<close>
  "jsRem a b = a - b * real_of_int (if a / b \<ge> 0 then \<lfloor>a / b\<rfloor> else \<lceil>a / b\<rceil>)"

definition saturate :: "real \<Rightarrow> real" where
  "saturate v = max 0 (min 1 v)"

definition smoothstep :: "real \<Rightarrow> real \<Rightarrow> real \<Rightarrow> real" where
  "smoothstep edge0 edge1 v =
     (if edge0 = edge1 then (if v < edge0 then 0 else 1)
      else let t = saturate ((v - edge0) / (edge1 - edge0)) in t * t * (3 - 2 * t))"

definition wrapRadians :: "real \<Rightarrow> real" where
  \<comment> \<open>The guard \<open>!Number.isFinite(value)\<close> never fires on a real.\<close>
  "wrapRadians v = (let wrapped = jsRem v TAU in if wrapped < 0 then wrapped + TAU else wrapped)"

definition createClimateState ::
  "real \<Rightarrow> real \<Rightarrow> real \<Rightarrow> WeatherOverride option \<Rightarrow> WindOverride option \<Rightarrow> ClimateState" where
  "createClimateState time seed dayPhase weatherOverride windOverride =
     (let wrappedDayPhase = dayPhase - real_of_int \<lfloor>dayPhase\<rfloor>;
          sunWave = sin ((wrappedDayPhase - 0.25) * TAU);
          daylight = saturate (0.18 + max 0 sunWave * 0.82);
          cloudSignalA = sin (time * 0.012 + seed * 0.00017) * 0.5 + 0.5;
          cloudSignalB = sin (time * 0.0045 + seed * 0.00043) * 0.5 + 0.5;
          cloudiness0 = saturate (0.1 + (cloudSignalA * 0.62 + cloudSignalB * 0.38) * 0.78);
          rainPulse = sin (time * 0.021 + seed * 0.00091) * 0.5 + 0.5;
          rainGate = smoothstep 0.6 0.92 cloudiness0;
          rainIntensity0 = saturate (rainGate * (0.14 + rainPulse * 0.62));
          cloudiness = (case weatherOverride of None \<Rightarrow> cloudiness0
                        | Some w \<Rightarrow> saturate (wo_cloudiness w));
          rainIntensity = (case weatherOverride of None \<Rightarrow> rainIntensity0
                           | Some w \<Rightarrow> saturate (wo_rainIntensity w));
          windSignalA = sin (time * 0.0095 + seed * 0.00031) * 0.5 + 0.5;
          windSignalB = sin (time * 0.017 + seed * 0.00073 + cloudiness * 1.4) * 0.5 + 0.5;
          windSignalC = sin (time * 0.004 + seed * 0.0011) * 0.5 + 0.5;
          windStrength0 = saturate (0.18 + windSignalA * 0.46 + rainIntensity * 0.24);
          windGustiness0 = saturate (0.15 + windSignalB * 0.54 + rainIntensity * 0.2);
          windDirection0 = wrapRadians
            (seed * 0.000045 + time * (0.015 + windStrength0 * 0.008)
             + (windSignalC - 0.5) * 1.4 + (windSignalB - 0.5) * 0.55);
          windStrength = (case windOverride of None \<Rightarrow> windStrength0
                          | Some w \<Rightarrow> saturate (wi_strength w));
          windDirection = (case windOverride of None \<Rightarrow> windDirection0
                           | Some w \<Rightarrow> wrapRadians (wi_direction w));
          windGustiness = (case windOverride of None \<Rightarrow> windGustiness0
                           | Some w \<Rightarrow> saturate (wi_gustiness w))
      in \<lparr>cl_dayPhase = wrappedDayPhase, cl_daylight = daylight, cl_cloudiness = cloudiness,
          cl_rainIntensity = rainIntensity, cl_windStrength = windStrength,
          cl_windDirection = windDirection, cl_windGustiness = windGustiness\<rparr>)"

section \<open>IEEE arithmetic of JavaScript numbers\<close>

text \<open>
  A JavaScript number that need not be finite.  A finite number is an IEEE double, and a cell
  of a \<open>Float32Array\<close> is an IEEE single; both are modelled by the real number they
  denote.  The sign of a zero is not modelled: the code modelled below divides only by numbers
  it has compared with 0 or bounded away from it.
\<close>

datatype jsnum = Num real | PosInf | NegInf | NaN

text \<open>
  Rounding to the nearest number of a binary format with \<open>p\<close> significant bits and
  exponents from \<open>emin\<close> to \<open>emax\<close>, a tie going to the even significand.  A number
  whose binade lies below \<open>emin\<close> is rounded on the subnormal grid, and a result of
  magnitude \<open>2 ^ (emax + 1)\<close> or more is an infinity.
\<close>

definition roundHalfEven :: "real \<Rightarrow> int" where
  "roundHalfEven q =
     (let f = \<lfloor>q\<rfloor>; d = q - real_of_int f
      in if d < 1 / 2 then f else if d > 1 / 2 then f + 1 else if even f then f else f + 1)"

definition binade :: "real \<Rightarrow> int" where
  "binade x = \<lfloor>log 2 \<bar>x\<bar>\<rfloor>"

definition quantum :: "nat \<Rightarrow> int \<Rightarrow> real \<Rightarrow> real" where
  "quantum p emin x = 2 powi (max (binade x) emin - int p + 1)"

definition roundFinite :: "nat \<Rightarrow> int \<Rightarrow> real \<Rightarrow> real" where
  "roundFinite p emin x =
     (if x = 0 then 0
      else real_of_int (roundHalfEven (x / quantum p emin x)) * quantum p emin x)"

definition toFormat :: "nat \<Rightarrow> int \<Rightarrow> int \<Rightarrow> real \<Rightarrow> jsnum" where
  "toFormat p emin emax x =
     (let r = roundFinite p emin x
      in if \<bar>r\<bar> \<ge> 2 powi (emax + 1) then (if x > 0 then PosInf else NegInf)
         else Num r)"

definition dbl :: "real \<Rightarrow> jsnum" where
  "dbl = toFormat 53 (- 1022) 1023"

definition single :: "real \<Rightarrow> jsnum" where
  "single = toFormat 24 (- 126) 127"

definition representable :: "nat \<Rightarrow> int \<Rightarrow> int \<Rightarrow> real \<Rightarrow> bool" where
  "representable p emin emax r \<longleftrightarrow>
     (\<exists>m e. r = real_of_int m * 2 powi e \<and> \<bar>m\<bar> < 2 ^ p \<and> emin - int p + 1 \<le> e)
     \<and> \<bar>r\<bar> < 2 powi (emax + 1)"

fun fround :: "jsnum \<Rightarrow> jsnum" where
  "fround (Num r) = single r"
| "fround v = v"

fun dblNeg :: "jsnum \<Rightarrow> jsnum" where
  "dblNeg (Num a) = Num (- a)"
| "dblNeg PosInf = NegInf"
| "dblNeg NegInf = PosInf"
| "dblNeg NaN = NaN"

fun dblAdd :: "jsnum \<Rightarrow> jsnum \<Rightarrow> jsnum" where
  "dblAdd (Num a) (Num b) = dbl (a + b)"
| "dblAdd NaN _ = NaN"
| "dblAdd _ NaN = NaN"
| "dblAdd PosInf NegInf = NaN"
| "dblAdd NegInf PosInf = NaN"
| "dblAdd PosInf _ = PosInf"
| "dblAdd _ PosInf = PosInf"
| "dblAdd NegInf _ = NegInf"
| "dblAdd _ NegInf = NegInf"

definition dblSub :: "jsnum \<Rightarrow> jsnum \<Rightarrow> jsnum" where
  "dblSub a b = dblAdd a (dblNeg b)"

fun infTimes :: "bool \<Rightarrow> jsnum \<Rightarrow> jsnum" where
  "infTimes positive (Num b) =
     (if b = 0 then NaN else if (0 < b) = positive then PosInf else NegInf)"
| "infTimes positive PosInf = (if positive then PosInf else NegInf)"
| "infTimes positive NegInf = (if positive then NegInf else PosInf)"
| "infTimes positive NaN = NaN"

fun dblMul :: "jsnum \<Rightarrow> jsnum \<Rightarrow> jsnum" where
  "dblMul (Num a) (Num b) = dbl (a * b)"
| "dblMul PosInf b = infTimes True b"
| "dblMul NegInf b = infTimes False b"
| "dblMul NaN _ = NaN"
| "dblMul a PosInf = infTimes True a"
| "dblMul a NegInf = infTimes False a"
| "dblMul _ NaN = NaN"

fun dblDiv :: "jsnum \<Rightarrow> jsnum \<Rightarrow> jsnum" where
  "dblDiv (Num a) (Num b) =
     (if b = 0 then (if a = 0 then NaN else if 0 < a then PosInf else NegInf)
      else dbl (a / b))"
| "dblDiv NaN _ = NaN"
| "dblDiv _ NaN = NaN"
| "dblDiv (Num a) _ = Num 0"
| "dblDiv PosInf (Num b) = (if 0 \<le> b then PosInf else NegInf)"
| "dblDiv NegInf (Num b) = (if 0 \<le> b then NegInf else PosInf)"
| "dblDiv _ _ = NaN"

fun jsLess :: "jsnum \<Rightarrow> jsnum \<Rightarrow> bool" where
  "jsLess (Num a) (Num b) \<longleftrightarrow> a < b"
| "jsLess NaN _ \<longleftrightarrow> False"
| "jsLess _ NaN \<longleftrightarrow> False"
| "jsLess PosInf _ \<longleftrightarrow> False"
| "jsLess _ NegInf \<longleftrightarrow> False"
| "jsLess _ _ \<longleftrightarrow> True"

definition jsLessEq :: "jsnum \<Rightarrow> jsnum \<Rightarrow> bool" where
  "jsLessEq a b \<longleftrightarrow> jsLess a b \<or> (a = b \<and> a \<noteq> NaN)"

definition jsMax :: "jsnum \<Rightarrow> jsnum \<Rightarrow> jsnum" where
  "jsMax a b = (if a = NaN \<or> b = NaN then NaN else if jsLess a b then b else a)"

definition jsMin :: "jsnum \<Rightarrow> jsnum \<Rightarrow> jsnum" where
  "jsMin a b = (if a = NaN \<or> b = NaN then NaN else if jsLess b a then b else a)"

definition clampFloat :: "jsnum \<Rightarrow> jsnum \<Rightarrow> jsnum \<Rightarrow> jsnum" where
  "clampFloat v lo hi = jsMin hi (jsMax lo v)"

section \<open>Persistence payload (persistence/storage.ts)\<close>

text \<open>
  \<open>deserializeWorld\<close> is modelled from the value that \<open>JSON.parse\<close> returns; a text
  that does not parse throws before any check.
\<close>

datatype json =
    JNull
  | JBool bool
  | JNum jsnum
  | JStr string
  | JArr "json list"
  | JObj "(string \<times> json) list"

datatype LoadError =
    InvalidWorldPayload
  | IncompleteWorldPayload
  | CorruptedWorldDimensions
  | InvalidSourcePayload
  | InvalidSourceEntry

definition isObject :: "json \<Rightarrow> bool" where
  \<comment> \<open>\<open>typeof v === 'object' && v !== null\<close>: an array is an object too.\<close>
  "isObject v = (case v of JArr _ \<Rightarrow> True | JObj _ \<Rightarrow> True | _ \<Rightarrow> False)"

definition field :: "json \<Rightarrow> string \<Rightarrow> json option" where
  \<comment> \<open>\<open>v.k\<close> for one of the keys read here; \<open>None\<close> is \<open>undefined\<close>.  A parsed
      object holds each key once.\<close>
  "field v k = (case v of JObj kvs \<Rightarrow> map_of kvs k | _ \<Rightarrow> None)"

definition isFiniteNumber :: "json option \<Rightarrow> bool" where
  "isFiniteNumber v = (case v of Some (JNum (Num _)) \<Rightarrow> True | _ \<Rightarrow> False)"

definition numberOf :: "json option \<Rightarrow> real" where
  \<comment> \<open>The value of a field that \<open>isFiniteNumber\<close> has accepted.\<close>
  "numberOf v = (case v of Some (JNum (Num r)) \<Rightarrow> r | _ \<Rightarrow> 0)"

definition isArray :: "json option \<Rightarrow> bool" where
  "isArray v = (case v of Some (JArr _) \<Rightarrow> True | _ \<Rightarrow> False)"

definition elementsOf :: "json option \<Rightarrow> json list" where
  "elementsOf v = (case v of Some (JArr xs) \<Rightarrow> xs | _ \<Rightarrow> [])"

definition toNumber :: "(json \<Rightarrow> jsnum) \<Rightarrow> json \<Rightarrow> jsnum" where
  \<comment> \<open>The conversion of a value to a number.  What it makes of a string, an array or an
      object is the parameter \<open>coerce\<close>.\<close>
  "toNumber coerce v =
     (case v of JNum n \<Rightarrow> n | JNull \<Rightarrow> Num 0 | JBool b \<Rightarrow> Num (if b then 1 else 0)
      | _ \<Rightarrow> coerce v)"

definition float32From :: "(json \<Rightarrow> jsnum) \<Rightarrow> json list \<Rightarrow> jsnum list" where
  \<comment> \<open>\<open>Float32Array.from(values)\<close>: each element is converted to a number and rounded to
      32 bits.\<close>
  "float32From coerce values = map (\<lambda>v. fround (toNumber coerce v)) values"

definition isString :: "json option \<Rightarrow> bool" where
  "isString v = (case v of Some (JStr _) \<Rightarrow> True | _ \<Rightarrow> False)"

definition isBoolean :: "json option \<Rightarrow> bool" where
  "isBoolean v = (case v of Some (JBool _) \<Rightarrow> True | _ \<Rightarrow> False)"

definition invalidSourceEntry :: "json \<Rightarrow> bool" where
  \<comment> \<open>The condition under which \<open>validateSources\<close> throws for an entry.\<close>
  "invalidSourceEntry item \<longleftrightarrow>
     \<not> isObject item \<or>
     \<not> isString (field item ''id'') \<or>
     \<not> isFiniteNumber (field item ''x'') \<or>
     \<not> isFiniteNumber (field item ''y'') \<or>
     \<not> isFiniteNumber (field item ''rate'') \<or>
     \<not> isBoolean (field item ''active'')"

definition sourceOf :: "json \<Rightarrow> WaterSource" where
  "sourceOf item =
     \<lparr>src_id = (case field item ''id'' of Some (JStr s) \<Rightarrow> s | _ \<Rightarrow> []),
      src_x = numberOf (field item ''x''),
      src_y = numberOf (field item ''y''),
      src_rate = numberOf (field item ''rate''),
      src_active = (case field item ''active'' of Some (JBool b) \<Rightarrow> b | _ \<Rightarrow> False)\<rparr>"

fun validateEntries :: "json list \<Rightarrow> LoadError + WaterSource list" where
  "validateEntries [] = Inr []"
| "validateEntries (item # items) =
     (if invalidSourceEntry item then Inl InvalidSourceEntry
      else case validateEntries items of
             Inl e \<Rightarrow> Inl e
           | Inr sources \<Rightarrow> Inr (sourceOf item # sources))"

definition validateSources :: "json option \<Rightarrow> LoadError + WaterSource list" where
  "validateSources v =
     (if \<not> isArray v then Inl InvalidSourcePayload else validateEntries (elementsOf v))"

definition deserializeWorld ::
  "(json \<Rightarrow> jsnum) \<Rightarrow> json \<Rightarrow> LoadError + (real, jsnum) WorldState" where
  "deserializeWorld coerce parsed =
     (if \<not> isObject parsed then Inl InvalidWorldPayload
      else if \<not> isFiniteNumber (field parsed ''version'') \<or>
              \<not> isFiniteNumber (field parsed ''size'') \<or>
              \<not> isArray (field parsed ''terrain'') \<or>
              \<not> isArray (field parsed ''water'') \<or>
              \<not> isFiniteNumber (field parsed ''vegetationSeed'') \<or>
              \<not> isFiniteNumber (field parsed ''time'')
      then Inl IncompleteWorldPayload
      else
        let sz = numberOf (field parsed ''size'');
            expectedLength = dblMul (Num sz) (Num sz);
            terrain = elementsOf (field parsed ''terrain'');
            water = elementsOf (field parsed ''water'')
        in if Num (real (length terrain)) \<noteq> expectedLength \<or>
              Num (real (length water)) \<noteq> expectedLength
           then Inl CorruptedWorldDimensions
           else
             case validateSources (field parsed ''sources'') of
               Inl e \<Rightarrow> Inl e
             | Inr sources \<Rightarrow>
                 Inr \<lparr>ws_version = 1,
                      ws_size = sz,
                      ws_terrainSeed = (if isFiniteNumber (field parsed ''terrainSeed'')
                                        then numberOf (field parsed ''terrainSeed'') else 0),
                      ws_terrain = float32From coerce terrain,
                      ws_water = float32From coerce water,
                      ws_sources = sources,
                      ws_vegetationSeed = numberOf (field parsed ''vegetationSeed''),
                      ws_time = numberOf (field parsed ''time'')\<rparr>)"





definition coerceNaN :: "json \<Rightarrow> jsnum" where
  \<comment> \<open>A stand-in for the conversion of strings, arrays and objects; the payloads below hold
      none as a cell.\<close>
  "coerceNaN v = NaN"





definition vanishingPayload :: json where
  \<comment> \<open>A payload without cells whose size is \<open>2 ^ - 600\<close>: the square of the size
      underflows to 0.\<close>
  "vanishingPayload = JObj
     [(''version'', JNum (Num 1)), (''size'', JNum (Num (2 powi (- 600)))),
      (''terrain'', JArr []), (''water'', JArr []),
      (''sources'', JArr []), (''vegetationSeed'', JNum (Num 0)), (''time'', JNum (Num 0))]"

section \<open>Procedural terrain generator (core/world.ts)\<close>

text \<open>
  Arithmetic on numbers that need not be finite, as far as the smoothing pass and the peak
  search use it: a sum, a product with and a quotient by a finite number, and \<open>>\<close>.
  The zero of \<^typ>\<open>real\<close> stands for \<open>+0\<close>.
\<close>

fun jsAdd :: "jsnum \<Rightarrow> jsnum \<Rightarrow> jsnum" where
  "jsAdd (Num a) (Num b) = Num (a + b)"
| "jsAdd NaN _ = NaN"
| "jsAdd _ NaN = NaN"
| "jsAdd PosInf NegInf = NaN"
| "jsAdd NegInf PosInf = NaN"
| "jsAdd PosInf _ = PosInf"
| "jsAdd _ PosInf = PosInf"
| "jsAdd NegInf _ = NegInf"
| "jsAdd _ NegInf = NegInf"

fun jsScale :: "jsnum \<Rightarrow> real \<Rightarrow> jsnum" where
  "jsScale (Num a) c = Num (a * c)"
| "jsScale NaN c = NaN"
| "jsScale PosInf c = (if c > 0 then PosInf else if c < 0 then NegInf else NaN)"
| "jsScale NegInf c = (if c > 0 then NegInf else if c < 0 then PosInf else NaN)"

fun jsDivide :: "jsnum \<Rightarrow> real \<Rightarrow> jsnum" where
  "jsDivide (Num a) c =
     (if c \<noteq> 0 then Num (a / c) else if a = 0 then NaN else if a > 0 then PosInf else NegInf)"
| "jsDivide NaN c = NaN"
| "jsDivide PosInf c = (if c \<ge> 0 then PosInf else NegInf)"
| "jsDivide NegInf c = (if c \<ge> 0 then NegInf else PosInf)"

fun jsGreater :: "jsnum \<Rightarrow> jsnum \<Rightarrow> bool" where
  "jsGreater (Num a) (Num b) = (a > b)"
| "jsGreater NaN _ = False"
| "jsGreater _ NaN = False"
| "jsGreater PosInf b = (b \<noteq> PosInf)"
| "jsGreater NegInf _ = False"
| "jsGreater (Num a) PosInf = False"
| "jsGreater (Num a) NegInf = True"

definition fract :: "real \<Rightarrow> real" where
  "fract v = v - real_of_int \<lfloor>v\<rfloor>"

definition hash2D :: "real \<Rightarrow> real \<Rightarrow> real \<Rightarrow> real" where
  "hash2D x y seed = fract (sin (x * 127.1 + y * 311.7 + seed * 0.00137) * 43758.5453123)"

definition smoothstepNoise :: "real \<Rightarrow> real" where
  \<comment> \<open>\<open>smoothstep(t)\<close> of core/world.ts (main.ts has another function of this name).\<close>
  "smoothstepNoise t = t * t * (3 - 2 * t)"

definition valueNoise :: "real \<Rightarrow> real \<Rightarrow> real \<Rightarrow> real" where
  "valueNoise x y seed =
     (let x0 = real_of_int \<lfloor>x\<rfloor>;
          y0 = real_of_int \<lfloor>y\<rfloor>;
          x1 = x0 + 1;
          y1 = y0 + 1;
          tx = x - x0;
          ty = y - y0;
          v00 = hash2D x0 y0 seed;
          v10 = hash2D x1 y0 seed;
          v01 = hash2D x0 y1 seed;
          v11 = hash2D x1 y1 seed;
          sx = smoothstepNoise tx;
          sy = smoothstepNoise ty;
          a = v00 + (v10 - v00) * sx;
          b = v01 + (v11 - v01) * sx
      in a + (b - a) * sy)"

definition fractalStep ::
  "real \<Rightarrow> real \<Rightarrow> real \<Rightarrow> real \<Rightarrow> real \<Rightarrow> nat \<Rightarrow> real \<times> real \<times> real \<times> real
   \<Rightarrow> real \<times> real \<times> real \<times> real" where
  \<comment> \<open>One octave; the loop state is \<open>(amplitude, frequency, total, weight)\<close>, the variable
      \<open>total\<close> being written \<open>sumSoFar\<close>.\<close>
  "fractalStep x y seed lacunarity gain octave st =
     (case st of (amplitude, frequency, sumSoFar, weight) \<Rightarrow>
        (amplitude * gain, frequency * lacunarity,
         sumSoFar + valueNoise (x * frequency) (y * frequency) (seed + real octave * 97) * amplitude,
         weight + amplitude))"

definition fractalNoise :: "real \<Rightarrow> real \<Rightarrow> real \<Rightarrow> nat \<Rightarrow> real \<Rightarrow> real \<Rightarrow> real" where
  "fractalNoise x y seed octaves lacunarity gain =
     (case fold (fractalStep x y seed lacunarity gain) [0..<octaves] (1, 1, 0, 0) of
        (amplitude, frequency, sumSoFar, weight) \<Rightarrow> if weight > 0 then sumSoFar / weight else 0)"

definition neighbourOffsets :: "(int \<times> int) list" where
  \<comment> \<open>\<open>for oy in -1..1: for ox in -1..1\<close>, as pairs \<open>(ox, oy)\<close>.\<close>
  "neighbourOffsets = concat (map (\<lambda>oy. map (\<lambda>ox. (ox, oy)) [- 1, 0, 1]) [- 1, 0, 1])"

definition smoothAccumulate ::
  "jsnum list \<Rightarrow> nat \<Rightarrow> nat \<Rightarrow> nat \<Rightarrow> int \<times> int \<Rightarrow> jsnum \<times> nat \<Rightarrow> jsnum \<times> nat" where
  "smoothAccumulate source sz x y off acc =
     (case off of (ox, oy) \<Rightarrow> case acc of (sumSoFar, count) \<Rightarrow>
        let nx = int x + ox;
            ny = int y + oy
        in if nx < 0 \<or> nx \<ge> int sz \<or> ny < 0 \<or> ny \<ge> int sz then (sumSoFar, count)
           else (jsAdd sumSoFar (source ! nat (toIndex (int sz) nx ny)), count + 1))"

definition smoothCell :: "jsnum list \<Rightarrow> nat \<Rightarrow> real \<Rightarrow> nat \<times> nat \<Rightarrow> jsnum list \<Rightarrow> jsnum list" where
  "smoothCell source sz blend c terrain =
     (case c of (x, y) \<Rightarrow>
        let index = toIndex sz x y in
        case fold (smoothAccumulate source sz x y) neighbourOffsets (Num 0, 0) of
          (sumSoFar, count) \<Rightarrow>
            let average = jsDivide sumSoFar (max 1 (real count))
            in terrain[index := jsAdd (jsScale (source ! index) (1 - blend)) (jsScale average blend)])"

definition smoothTerrain :: "jsnum list \<Rightarrow> nat \<Rightarrow> real \<Rightarrow> jsnum list" where
  \<comment> \<open>\<open>source\<close> is the copy taken on entry; the array passed in is overwritten cell by cell.\<close>
  "smoothTerrain terrain sz blend = fold (smoothCell terrain sz blend) (cells sz) terrain"

definition cellHeight :: "real \<Rightarrow> real \<Rightarrow> real \<Rightarrow> real" where
  \<comment> \<open>The body of the generation loop for finite normalised coordinates \<open>nx\<close>, \<open>ny\<close>.
      \<open>ridges\<close> lies in \<open>[0, 1]\<close>, where \<open>Math.pow\<close> is \<open>powr\<close>.\<close>
  "cellHeight nx ny seed =
     (let cx = nx * 2 - 1;
          cy = ny * 2 - 1;
          radial = sqrt (cx * cx + cy * cy);
          macro = fractalNoise (nx * 3.4 + 14.3) (ny * 3.4 + 8.9) seed 5 2.08 0.52;
          detail = fractalNoise (nx * 18.8 + 71.1) (ny * 18.8 + 39.7) (seed + 999) 4 2.2 0.46;
          ridgeBase = fractalNoise (nx * 5.7 + 2.7) (ny * 5.7 + 6.4) (seed + 313) 4 2.03 0.5;
          ridges = 1 - \<bar>ridgeBase * 2 - 1\<bar>;
          warp = (fractalNoise (nx * 7.2 + 11.1) (ny * 7.2 + 4.2) (seed + 1703) 3 2.0 0.5 - 0.5) * 0.72;
          continent = (macro - 0.5) * 13.8;
          mountain = (ridges powr 1.35) * 8.6;
          foldTerm = sin ((nx * 1.45 + ny * 1.2 + macro * 0.8 + seed * 0.000012) * pi * 2) * 1.35;
          valleyAxis = cy + warp + sin (cx * 3.1 + seed * 0.00021) * 0.2;
          riverValley = - exp (- ((valleyAxis * 4.2)\<^sup>2)) * 4.5;
          coastalDrop = - ((max 0 (radial - 0.7) * 3.8)\<^sup>2) * 3.3;
          micro = (detail - 0.5) * 1.9;
          height = continent + mountain + foldTerm + riverValley + coastalDrop + micro
      in clamp height MIN_TERRAIN_HEIGHT MAX_TERRAIN_HEIGHT)"

definition baseCell :: "nat \<Rightarrow> real \<Rightarrow> nat \<times> nat \<Rightarrow> jsnum list \<Rightarrow> jsnum list" where
  \<comment> \<open>\<open>nx = x / (size - 1)\<close> is \<open>0 / 0 = NaN\<close> on a grid of size 1.  Once a coordinate is not
      finite every noise sample is \<open>NaN\<close>, hence the height, and \<open>clamp\<close> (\<open>Math.min\<close> of
      \<open>Math.max\<close>) returns \<open>NaN\<close> for it.\<close>
  "baseCell sz seed c terrain =
     (case c of (x, y) \<Rightarrow>
        let idx = toIndex sz x y;
            nx = jsDivide (Num (real x)) (real sz - 1);
            ny = jsDivide (Num (real y)) (real sz - 1)
        in terrain[idx := (case (nx, ny) of
                             (Num nx', Num ny') \<Rightarrow> Num (cellHeight nx' ny' seed)
                           | _ \<Rightarrow> NaN)])"

definition generateBaseTerrain :: "nat \<Rightarrow> real \<Rightarrow> jsnum list" where
  "generateBaseTerrain sz seed =
     (let terrain = fold (baseCell sz seed) (cells sz) (replicate (sz * sz) (Num 0))
      in smoothTerrain (smoothTerrain terrain sz 0.16) sz 0.08)"

definition peakStep :: "jsnum list \<Rightarrow> nat \<Rightarrow> nat \<times> nat \<Rightarrow> int \<times> jsnum \<Rightarrow> int \<times> jsnum" where
  \<comment> \<open>The loop state is \<open>(bestIndex, bestHeight)\<close>.\<close>
  "peakStep terrain sz c best =
     (case c of (x, y) \<Rightarrow> case best of (bestIndex, bestHeight) \<Rightarrow>
        let index = toIndex sz x y;
            height = terrain ! index
        in if jsGreater height bestHeight then (int index, height) else (bestIndex, bestHeight))"

definition findHighestInteriorCell :: "jsnum list \<Rightarrow> nat \<Rightarrow> nat \<Rightarrow> (nat \<times> nat \<times> jsnum) option" where
  \<comment> \<open>The result is \<open>(x, y, height)\<close>.  Where \<open>size - margin\<close> is negative the loops are
      empty, as the ranges below are.\<close>
  "findHighestInteriorCell terrain sz margin =
     (case fold (peakStep terrain sz)
             (concat (map (\<lambda>y. map (\<lambda>x. (x, y)) [margin..<sz - margin]) [margin..<sz - margin]))
             (- 1, NegInf) of
        (bestIndex, bestHeight) \<Rightarrow>
          if bestIndex < 0 then None
          else Some (nat (bestIndex mod int sz), nat \<lfloor>real_of_int bestIndex / real sz\<rfloor>, bestHeight))"

definition normalizedPeakHeight :: "jsnum \<Rightarrow> real" where
  \<comment> \<open>\<open>clamp((height + 4) / 20, 0, 1)\<close>.  \<open>NaN\<close> is not reached: the height of a peak has
      compared greater than another number.\<close>
  "normalizedPeakHeight height =
     (case height of Num h \<Rightarrow> clamp ((h + 4) / 20) 0 1 | PosInf \<Rightarrow> 1 | NegInf \<Rightarrow> 0 | NaN \<Rightarrow> 0)"

definition toFixed2 :: "real \<Rightarrow> real" where
  \<comment> \<open>\<open>Number(v.toFixed(2))\<close>: the nearest multiple of 0.01, a tie going up.\<close>
  "toFixed2 v = real_of_int \<lfloor>v * 100 + 1 / 2\<rfloor> / 100"

definition generateInitialSources :: "jsnum list \<Rightarrow> nat \<Rightarrow> WaterSource list" where
  "generateInitialSources terrain sz =
     (let margin = max 2 (nat \<lfloor>real sz * 0.06\<rfloor>)
      in case findHighestInteriorCell terrain sz margin of
           None \<Rightarrow> []
         | Some (px, py, height) \<Rightarrow>
             let normalizedPeak = normalizedPeakHeight height;
                 rate = 1.1 + normalizedPeak * 0.95
             in [\<lparr>src_id = ''source-1'', src_x = real px, src_y = real py,
                  src_rate = toFixed2 rate, src_active = True\<rparr>])"

definition createInitialWorld :: "nat \<Rightarrow> real \<Rightarrow> real \<Rightarrow> (nat, jsnum) WorldState" where
  \<comment> \<open>\<open>createInitialWorld(size, terrainSeed)\<close>; \<open>rnd\<close> is what \<open>Math.random()\<close> returns
      for the vegetation seed, the only use of the platform's random state in this call.\<close>
  "createInitialWorld sz terrainSeed rnd =
     (let terrain = generateBaseTerrain sz terrainSeed
      in \<lparr>ws_version = 1,
          ws_size = sz,
          ws_terrainSeed = terrainSeed,
          ws_terrain = terrain,
          ws_water = replicate (sz * sz) (Num 0),
          ws_sources = generateInitialSources terrain sz,
          ws_vegetationSeed = real_of_int \<lfloor>rnd * 10000000\<rfloor>,
          ws_time = 0\<rparr>)"

text \<open>A generated cell that is a finite number within the height bounds.\<close>

definition cellInRange :: "jsnum \<Rightarrow> bool" where
  "cellInRange c = (case c of Num v \<Rightarrow> inHeightRange v | _ \<Rightarrow> False)"

text \<open>
  The comparison of the determinism property: two cells are numerically identical within
  \<open>1e-6\<close>.  \<open>NaN\<close> is close to nothing, itself included.
\<close>

definition withinTolerance :: "jsnum \<Rightarrow> jsnum \<Rightarrow> bool" where
  "withinTolerance a b =
     (case (a, b) of
        (Num u, Num v) \<Rightarrow> \<bar>u - v\<bar> < 1 / 10 ^ 6
      | (PosInf, PosInf) \<Rightarrow> True
      | (NegInf, NegInf) \<Rightarrow> True
      | _ \<Rightarrow> False)"

section \<open>Water flow solver in IEEE arithmetic (core/water.ts)\<close>

text \<open>
  \<open>stepWater\<close> once more, with the arithmetic of the program: every operation on numbers
  rounds to a double, every store into \<open>state.water\<close> or the scratch buffer \<open>delta\<close>
  (both \<open>Float32Array\<close>) rounds to 32 bits, and a comparison with \<open>NaN\<close> is false.  The
  parameters and the fields of a source are finite doubles; a cell may hold an infinity or
  \<open>NaN\<close>.
\<close>

type_synonym FloatWorld = "(nat, jsnum) WorldState"

definition cellAt :: "jsnum list \<Rightarrow> nat \<Rightarrow> jsnum" where
  \<comment> \<open>\<open>array[index]\<close> as a number: a read past the end is \<open>undefined\<close>, which every
      operation here treats as \<open>NaN\<close>.\<close>
  "cellAt xs i = (if i < length xs then xs ! i else NaN)"

definition injectSourceFloat :: "jsnum \<Rightarrow> WaterSource \<Rightarrow> FloatWorld \<Rightarrow> FloatWorld" where
  "injectSourceFloat dt source state =
     (if \<not> src_active source then state
      else
        let sx = jsRound (src_x source);
            sy = jsRound (src_y source)
        in if \<not> inBounds (int (ws_size state)) sx sy then state
           else
             let sourceIndex = nat (toIndex (int (ws_size state)) sx sy)
             in state\<lparr>ws_water := (ws_water state)
                  [sourceIndex := fround (dblAdd (cellAt (ws_water state) sourceIndex)
                                    (dblMul (jsMax (Num 0) (Num (src_rate source))) dt))]\<rparr>)"

definition neighbourPotentialFloat ::
  "FloatWorld \<Rightarrow> jsnum \<Rightarrow> jsnum \<Rightarrow> jsnum \<Rightarrow> nat \<Rightarrow> jsnum" where
  "neighbourPotentialFloat state totalHeight flowRate dt nIndex =
     (let diff = dblSub totalHeight
                   (dblAdd (cellAt (ws_terrain state) nIndex) (cellAt (ws_water state) nIndex))
      in if jsLess (Num 0) diff then dblMul (dblMul diff flowRate) dt else Num 0)"

definition transferFloat :: "nat \<Rightarrow> int \<Rightarrow> jsnum \<Rightarrow> jsnum \<Rightarrow> jsnum list \<Rightarrow> jsnum list" where
  "transferFloat index nIndex potential scale delta =
     (if jsLess (Num 0) potential \<and> nIndex \<ge> 0 then
        let amount = dblMul potential scale;
            d = delta[index := fround (dblSub (cellAt delta index) amount)]
        in d[nat nIndex := fround (dblAdd (cellAt d (nat nIndex)) amount)]
      else delta)"

definition flowCellFloat ::
  "FloatWorld \<Rightarrow> jsnum \<Rightarrow> jsnum \<Rightarrow> nat \<times> nat \<Rightarrow> jsnum list \<Rightarrow> jsnum list" where
  "flowCellFloat state flowRate dt c delta =
     (case c of (x, y) \<Rightarrow>
      let sz = ws_size state;
          index = toIndex sz x y;
          currentWater = cellAt (ws_water state) index
      in if jsLessEq currentWater (Num 0) then delta
         else
           let totalHeight = dblAdd (cellAt (ws_terrain state) index) currentWater;
               rightIndex = (if x + 1 < sz then int (toIndex sz (x + 1) y) else - 1);
               rightPotential = (if x + 1 < sz
                  then neighbourPotentialFloat state totalHeight flowRate dt (toIndex sz (x + 1) y)
                  else Num 0);
               leftIndex = (if int x - 1 \<ge> 0 then int (toIndex sz (x - 1) y) else - 1);
               leftPotential = (if int x - 1 \<ge> 0
                  then neighbourPotentialFloat state totalHeight flowRate dt (toIndex sz (x - 1) y)
                  else Num 0);
               upIndex = (if y + 1 < sz then int (toIndex sz x (y + 1)) else - 1);
               upPotential = (if y + 1 < sz
                  then neighbourPotentialFloat state totalHeight flowRate dt (toIndex sz x (y + 1))
                  else Num 0);
               downIndex = (if int y - 1 \<ge> 0 then int (toIndex sz x (y - 1)) else - 1);
               downPotential = (if int y - 1 \<ge> 0
                  then neighbourPotentialFloat state totalHeight flowRate dt (toIndex sz x (y - 1))
                  else Num 0);
               totalPotential =
                 dblAdd (dblAdd (dblAdd rightPotential leftPotential) upPotential) downPotential
           in if jsLessEq totalPotential (Num 0) then delta
              else
                let scale = jsMin (Num 1) (dblDiv currentWater totalPotential)
                in transferFloat index downIndex downPotential scale
                     (transferFloat index upIndex upPotential scale
                       (transferFloat index leftIndex leftPotential scale
                         (transferFloat index rightIndex rightPotential scale delta))))"

definition lossCellFloat ::
  "jsnum \<Rightarrow> jsnum \<Rightarrow> jsnum \<Rightarrow> jsnum \<Rightarrow> jsnum \<Rightarrow> jsnum list \<Rightarrow> nat \<times> nat \<Rightarrow> FloatWorld
     \<Rightarrow> FloatWorld" where
  "lossCellFloat dt dampingFactor evaporationLoss seepage edgeDrain delta c state =
     (case c of (x, y) \<Rightarrow>
      let sz = ws_size state;
          index = toIndex sz x y;
          withFlow = dblAdd (cellAt (ws_water state) index) (cellAt delta index);
          seepLoss = dblMul (dblMul withFlow seepage) dt;
          next0 = dblSub (dblSub (dblMul withFlow dampingFactor) evaporationLoss) seepLoss;
          isEdge = (x = 0 \<or> y = 0 \<or> int x = int sz - 1 \<or> int y = int sz - 1);
          next = (if isEdge \<and> jsLess (Num 0) next0 then dblSub next0 (dblMul edgeDrain dt)
                  else next0)
      in state\<lparr>ws_water := (ws_water state)[index := fround (jsMax (Num 0) next)]\<rparr>)"

definition stepWaterFloat :: "FloatWorld \<Rightarrow> SimParams \<Rightarrow> FloatWorld" where
  "stepWaterFloat state params =
     (let dt = jsMax (dbl (1 / 10000)) (Num (p_dt params));
          flowRate = jsMax (Num 0) (Num (p_flowRate params));
          damping = jsMax (Num 0) (Num (p_damping params));
          evaporation = jsMax (Num 0) (Num (p_evaporation params));
          seepage = jsMax (Num 0) (Num (orZero (p_seepage params)));
          edgeDrain = jsMax (Num 0) (Num (orZero (p_edgeDrain params)));
          injected = fold (injectSourceFloat dt) (ws_sources state) state;
          delta = fold (flowCellFloat injected flowRate dt) (cells (ws_size injected))
                    (replicate (length (ws_water injected)) (Num 0));
          dampingFactor = clampFloat (dblSub (Num 1) (dblMul damping dt)) (Num 0) (Num 1);
          evaporationLoss = dblMul evaporation dt
      in fold (lossCellFloat dt dampingFactor evaporationLoss seepage edgeDrain delta)
           (cells (ws_size injected)) injected)"

definition totalWaterFloat :: "FloatWorld \<Rightarrow> jsnum" where
  "totalWaterFloat state = fold (\<lambda>v total. dblAdd total v) (ws_water state) (Num 0)"

text \<open>A cell that satisfies the water invariant of the data model, \<open>water[i] >= 0\<close>.\<close>

definition nonNegative :: "jsnum \<Rightarrow> bool" where
  "nonNegative v = jsLessEq (Num 0) v"

text \<open>Concrete inputs.\<close>

definition surge :: real where
  \<comment> \<open>A finite double, about \<open>4.15e180\<close>.\<close>
  "surge = 2 ^ 600"

definition surgeParams :: SimParams where
  "surgeParams = \<lparr>p_dt = surge, p_flowRate = surge, p_damping = 0, p_evaporation = 0,
                   p_seepage = None, p_edgeDrain = None\<rparr>"

definition pondWorld :: FloatWorld where
  "pondWorld = \<lparr>ws_version = 1, ws_size = 2, ws_terrainSeed = 0,
                 ws_terrain = [Num 0, Num 0, Num 0, Num 0],
                 ws_water = [Num 1, Num 0, Num 0, Num 0], ws_sources = [],
                 ws_vegetationSeed = 1, ws_time = 0\<rparr>"

definition wellFormedFloat :: "FloatWorld \<Rightarrow> bool" where
  \<comment> \<open>The length invariant of the data model: both arrays hold \<open>size * size\<close> cells.\<close>
  "wellFormedFloat state \<longleftrightarrow>
     length (ws_terrain state) = ws_size state * ws_size state \<and>
     length (ws_water state) = ws_size state * ws_size state"

text \<open>
  What the loss pass stores into \<open>water[index]\<close> for the cell \<open>c\<close> whose own entry
  holds \<open>v\<close> (the body of \<open>lossCellFloat\<close> as a function of the cell's value).
\<close>

definition lossValueFloat ::
  "nat \<Rightarrow> jsnum \<Rightarrow> jsnum \<Rightarrow> jsnum \<Rightarrow> jsnum \<Rightarrow> jsnum \<Rightarrow> jsnum list \<Rightarrow> nat \<times> nat \<Rightarrow> jsnum
     \<Rightarrow> jsnum" where
  "lossValueFloat sz dt dampingFactor evaporationLoss seepage edgeDrain delta c v =
     (let withFlow = dblAdd v (cellAt delta (toIndex sz (fst c) (snd c)));
          seepLoss = dblMul (dblMul withFlow seepage) dt;
          next0 = dblSub (dblSub (dblMul withFlow dampingFactor) evaporationLoss) seepLoss
      in fround (jsMax (Num 0)
           (if (fst c = 0 \<or> snd c = 0 \<or> int (fst c) = int sz - 1 \<or> int (snd c) = int sz - 1)
               \<and> jsLess (Num 0) next0
            then dblSub next0 (dblMul edgeDrain dt) else next0)))"

definition noLossParams :: "real \<Rightarrow> SimParams" where
  \<comment> \<open>A tick of the given length with every flow and loss coefficient 0.\<close>
  "noLossParams dt = \<lparr>p_dt = dt, p_flowRate = 0, p_damping = 0, p_evaporation = 0,
                        p_seepage = None, p_edgeDrain = None\<rparr>"

definition springWorld :: "real \<Rightarrow> FloatWorld" where
  \<comment> \<open>The dry one-cell world with one active source of the given rate.\<close>
  "springWorld rate = \<lparr>ws_version = 1, ws_size = 1, ws_terrainSeed = 0,
       ws_terrain = [Num 0], ws_water = [Num 0],
       ws_sources = [\<lparr>src_id = ''source-1'', src_x = 0, src_y = 0, src_rate = rate,
                       src_active = True\<rparr>],
       ws_vegetationSeed = 1, ws_time = 0\<rparr>"

definition torrent :: real where
  \<comment> \<open>A finite double beyond the range of a 32-bit cell, about \<open>3.4e38\<close>.\<close>
  "torrent = 2 ^ 128"

section \<open>Properties of the water flow solver\<close>

lemma injectSource_frame:
  "\<exists>w. injectSource dt src s = s\<lparr>ws_water := w\<rparr> \<and> length w = length (ws_water s)"
proof (cases "injectSource dt src s = s")
  case True
  then have "injectSource dt src s = s\<lparr>ws_water := ws_water s\<rparr>" by simp
  then show ?thesis by blast
next
  case False
  then show ?thesis
    unfolding injectSource_def Let_def
    by (auto split: if_splits intro!: exI[of _ "(ws_water s)[_ := _]"])
qed

lemma lossCell_frame:
  "\<exists>w. lossCell dt df el sp ed delta c s = s\<lparr>ws_water := w\<rparr> \<and> length w = length (ws_water s)"
  unfolding lossCell_def Let_def by (cases c) (auto intro!: exI[of _ "(ws_water s)[_ := _]"])

lemma fold_frame:
  assumes "\<And>c s. \<exists>w. f c s = s\<lparr>ws_water := w\<rparr> \<and> length w = length (ws_water s)"
  shows "\<exists>w. fold f cs s = s\<lparr>ws_water := w\<rparr> \<and> length w = length (ws_water s)"
proof (induction cs arbitrary: s)
  case Nil
  have "s = s\<lparr>ws_water := ws_water s\<rparr>" by simp
  then show ?case by (metis fold_simps(1))
next
  case (Cons c cs)
  obtain w where w: "f c s = s\<lparr>ws_water := w\<rparr>" "length w = length (ws_water s)"
    using assms by blast
  obtain w' where w': "fold f cs (f c s) = (f c s)\<lparr>ws_water := w'\<rparr>"
      "length w' = length (ws_water (f c s))"
    using Cons.IH by blast
  have "fold f (c # cs) s = s\<lparr>ws_water := w'\<rparr>" using w w' by simp
  moreover have "length w' = length (ws_water s)" using w w' by simp
  ultimately show ?case by blast
qed

lemma stepWater_frame:
  "\<exists>w. stepWater s p = s\<lparr>ws_water := w\<rparr> \<and> length w = length (ws_water s)"
proof -
  let ?dt = "max 0.0001 (p_dt p)"
  obtain w1 where w1: "fold (injectSource ?dt) (ws_sources s) s = s\<lparr>ws_water := w1\<rparr>"
     "length w1 = length (ws_water s)"
    using fold_frame[of "injectSource ?dt", OF injectSource_frame] by blast
  show ?thesis
    unfolding stepWater_def Let_def w1
    using fold_frame[of "lossCell _ _ _ _ _ _" _ "s\<lparr>ws_water := w1\<rparr>", OF lossCell_frame] w1(2)
    by auto
qed

lemma concat_rows:
  "concat (map (\<lambda>y. map (\<lambda>x. y * sz + x) [0..<sz]) [0..<m]) = [0..<m * sz]"
proof (induction m)
  case 0
  then show ?case by simp
next
  case (Suc m)
  have "map (\<lambda>x. m * sz + x) [0..<sz] = [m * sz..<m * sz + sz]"
    by (simp add: map_add_upt add.commute)
  moreover have "[0..<m * sz] @ [m * sz..<m * sz + sz] = [0..<m * sz + sz]"
    using upt_add_eq_append[of 0 "m * sz" sz] by simp
  ultimately show ?case using Suc by (simp add: add.commute)
qed

lemma map_index_cells:
  "map (\<lambda>c. toIndex sz (fst c) (snd c)) (cells sz) = [0..<sz * sz]"
  unfolding cells_def toIndex_def
  by (simp add: map_concat comp_def concat_rows)

lemma set_cells: "set (cells sz) = {c. fst c < sz \<and> snd c < sz}"
  unfolding cells_def by auto

lemma distinct_index_cells: "distinct (map (\<lambda>c. toIndex sz (fst c) (snd c)) (cells sz))"
  by (simp add: map_index_cells)

lemma index_cells_bound: "c \<in> set (cells sz) \<Longrightarrow> toIndex sz (fst c) (snd c) < sz * sz"
proof -
  assume "c \<in> set (cells sz)"
  then have "toIndex sz (fst c) (snd c) \<in> set (map (\<lambda>c. toIndex sz (fst c) (snd c)) (cells sz))"
    by auto
  then show ?thesis by (simp add: map_index_cells)
qed

lemma index_cells_surj:
  assumes "j < sz * sz"
  shows "\<exists>c \<in> set (cells sz). toIndex sz (fst c) (snd c) = j"
proof -
  have "j \<in> set (map (\<lambda>c. toIndex sz (fst c) (snd c)) (cells sz))"
    using assms by (simp add: map_index_cells)
  then show ?thesis by auto
qed

lemma fold_pointwise_other:
  assumes "j \<notin> ix ` set cs"
  shows "fold (\<lambda>c w. w[ix c := g c (w ! ix c)]) cs w ! j = w ! j"
  using assms by (induction cs arbitrary: w) auto

lemma fold_pointwise_length:
  "length (fold (\<lambda>c w. w[ix c := g c (w ! ix c)]) cs w) = length w"
  by (induction cs arbitrary: w) auto

lemma fold_pointwise_hit:
  assumes "distinct (map ix cs)" "c \<in> set cs" "ix c < length w"
  shows "fold (\<lambda>c w. w[ix c := g c (w ! ix c)]) cs w ! ix c = g c (w ! ix c)"
  using assms
proof (induction cs arbitrary: w)
  case Nil
  then show ?case by simp
next
  case (Cons a cs)
  show ?case
  proof (cases "a = c")
    case True
    then have "ix c \<notin> ix ` set cs" using Cons.prems(1) by auto
    then show ?thesis using True Cons.prems(3) by (simp add: fold_pointwise_other)
  next
    case False
    then have in_cs: "c \<in> set cs" using Cons.prems(2) by simp
    then have ne: "ix a \<noteq> ix c" using Cons.prems(1) by auto
    have "fold (\<lambda>c w. w[ix c := g c (w ! ix c)]) cs (w[ix a := g a (w ! ix a)]) ! ix c
        = g c (w[ix a := g a (w ! ix a)] ! ix c)"
      using Cons.IH[of "w[ix a := g a (w ! ix a)]"] Cons.prems in_cs by simp
    then show ?thesis using ne by simp
  qed
qed



text \<open>
  Claim C10.  A tick changes only the water array: terrain, sources, size, both seeds, the
  clock and the version are the ones of the state passed in.
\<close>

theorem stepWater_mutates_only_water:
  "ws_terrain (stepWater state params) = ws_terrain state \<and>
   ws_sources (stepWater state params) = ws_sources state \<and>
   ws_size (stepWater state params) = ws_size state \<and>
   ws_terrainSeed (stepWater state params) = ws_terrainSeed state \<and>
   ws_vegetationSeed (stepWater state params) = ws_vegetationSeed state \<and>
   ws_time (stepWater state params) = ws_time state \<and>
   ws_version (stepWater state params) = ws_version state"
proof -
  obtain w where "stepWater state params = state\<lparr>ws_water := w\<rparr>"
    using stepWater_frame by blast
  then show ?thesis by simp
qed

lemma toIndex_bound: "(x::nat) < sz \<Longrightarrow> y < sz \<Longrightarrow> toIndex sz x y < sz * sz"
  using index_cells_bound[of "(x, y)" sz] by (simp add: set_cells)

lemma cells_1: "cells (Suc 0) = [(0, 0)]"
  by (simp add: cells_def)

section \<open>Properties of the climate state\<close>

lemma smoothstep_below: "v \<le> 0.6 \<Longrightarrow> smoothstep 0.6 0.92 v = 0"
proof -
  assume "v \<le> 0.6"
  then have "(v - 0.6) / (0.92 - 0.6) \<le> 0" by (simp add: divide_le_0_iff)
  then have "saturate ((v - 0.6) / (0.92 - 0.6)) = 0" by (simp add: saturate_def)
  then show ?thesis by (simp add: smoothstep_def Let_def)
qed

text \<open>
  Claim C8.  Without a weather override, whenever the cloudiness returned by
  \<open>createClimateState\<close> is at most 0.6 the returned rain intensity is 0, for every time,
  seed, day phase and wind override: the gate \<open>smoothstep(0.6, 0.92, cloudiness)\<close> is 0
  there, and the rain intensity is the gate times a pulse.
\<close>

theorem rain_needs_cloud:
  assumes "cl_cloudiness (createClimateState time seed dayPhase None windOverride) \<le> 0.6"
  shows "cl_rainIntensity (createClimateState time seed dayPhase None windOverride) = 0"
proof -
  let ?c = "saturate (0.1 + ((sin (time * 0.012 + seed * 0.00017) * 0.5 + 0.5) * 0.62
              + (sin (time * 0.0045 + seed * 0.00043) * 0.5 + 0.5) * 0.38) * 0.78)"
  have c: "cl_cloudiness (createClimateState time seed dayPhase None windOverride) = ?c"
    by (simp only: createClimateState_def Let_def ClimateState.select_convs option.case)
  have r: "cl_rainIntensity (createClimateState time seed dayPhase None windOverride)
        = saturate (smoothstep 0.6 0.92 ?c
            * (0.14 + (sin (time * 0.021 + seed * 0.00091) * 0.5 + 0.5) * 0.62))"
    by (simp only: createClimateState_def Let_def ClimateState.select_convs option.case)
  have "?c \<le> 0.6" using assms unfolding c .
  then have "smoothstep 0.6 0.92 ?c = 0" by (rule smoothstep_below)
  then show ?thesis unfolding r by (simp add: saturate_def)
qed

text \<open>At time 0 with seed 0 the cloudiness is 0.49, and there is no rain.\<close>

theorem rain_needs_cloud_witness:
  "cl_cloudiness (createClimateState 0 0 0 None None) \<le> 0.6 \<and>
   cl_rainIntensity (createClimateState 0 0 0 None None) = 0"
proof -
  have "cl_cloudiness (createClimateState 0 0 0 None None)
      = saturate (0.1 + ((sin (0 * 0.012 + 0 * 0.00017) * 0.5 + 0.5) * 0.62
              + (sin (0 * 0.0045 + 0 * 0.00043) * 0.5 + 0.5) * 0.38) * 0.78)"
    by (simp only: createClimateState_def Let_def ClimateState.select_convs option.case)
  then have c: "cl_cloudiness (createClimateState 0 0 0 None None) \<le> 0.6"
    by (simp add: saturate_def)
  show ?thesis using c rain_needs_cloud[OF c] by simp
qed

section \<open>Properties of the rounding\<close>

lemma roundHalfEven_int: "roundHalfEven (real_of_int k) = k"
  by (simp add: roundHalfEven_def)

lemma roundHalfEven_near: "\<bar>real_of_int (roundHalfEven q) - q\<bar> \<le> 1 / 2"
  unfolding roundHalfEven_def Let_def by (auto simp: abs_le_iff)

lemma roundHalfEven_mono:
  assumes "q \<le> q'"
  shows "roundHalfEven q \<le> roundHalfEven q'"
proof (cases "\<lfloor>q\<rfloor> = \<lfloor>q'\<rfloor>")
  case True
  then show ?thesis using assms unfolding roundHalfEven_def Let_def by auto
next
  case False
  then have "\<lfloor>q\<rfloor> + 1 \<le> \<lfloor>q'\<rfloor>" using floor_mono[OF assms] by linarith
  moreover have "roundHalfEven q \<le> \<lfloor>q\<rfloor> + 1" unfolding roundHalfEven_def Let_def by auto
  moreover have "\<lfloor>q'\<rfloor> \<le> roundHalfEven q'" unfolding roundHalfEven_def Let_def by auto
  ultimately show ?thesis by linarith
qed

lemma pow2_pos [simp]: "0 < (2::real) powi e"
  by (simp add: zero_less_power_int)

lemma pow2_mono: "a \<le> b \<Longrightarrow> (2::real) powi a \<le> 2 powi b"
  by (simp add: power_int_increasing)

lemma pow2_powr: "2 powr real_of_int e = (2::real) powi e"
  by (rule powr_real_of_int') simp_all

lemma pow2_less_iff: "(2::real) powi a < 2 powi b \<longleftrightarrow> a < b"
proof
  assume "(2::real) powi a < 2 powi b"
  then show "a < b" using pow2_mono[of b a] by (cases "a < b") auto
next
  assume "a < b"
  then show "(2::real) powi a < 2 powi b" by (simp add: power_int_strict_increasing)
qed

lemma binade_bounds:
  assumes "x \<noteq> 0"
  shows "2 powi (binade x) \<le> \<bar>x\<bar>" and "\<bar>x\<bar> < 2 powi (binade x + 1)"
proof -
  have pos: "0 < \<bar>x\<bar>" using assms by simp
  have "real_of_int (binade x) \<le> log 2 \<bar>x\<bar>" by (simp add: binade_def)
  then have "2 powr real_of_int (binade x) \<le> \<bar>x\<bar>"
    using pos by (simp add: le_log_iff)
  then show "2 powi (binade x) \<le> \<bar>x\<bar>" by (simp only: pow2_powr)
  have "log 2 \<bar>x\<bar> < real_of_int (binade x + 1)" by (simp add: binade_def)
  then have "\<bar>x\<bar> < 2 powr real_of_int (binade x + 1)"
    using pos by (simp add: log_less_iff)
  then show "\<bar>x\<bar> < 2 powi (binade x + 1)" by (simp only: pow2_powr)
qed

lemma binade_upper:
  assumes "x \<noteq> 0" "\<bar>x\<bar> < 2 powi k"
  shows "binade x < k"
proof -
  have "(2::real) powi (binade x) < 2 powi k"
    using binade_bounds(1)[OF assms(1)] assms(2) by linarith
  then show ?thesis by (simp add: pow2_less_iff)
qed

lemma binade_lower:
  assumes "2 powi k \<le> \<bar>x\<bar>"
  shows "k \<le> binade x"
proof -
  have x: "x \<noteq> 0" using assms(1) pow2_pos[of k] by (cases "x = 0") simp_all
  have "(2::real) powi k < 2 powi (binade x + 1)"
    using binade_bounds(2)[OF x] assms by linarith
  then show ?thesis by (simp add: pow2_less_iff)
qed

lemma binade_eq:
  assumes "2 powi k \<le> \<bar>x\<bar>" "\<bar>x\<bar> < 2 powi (k + 1)"
  shows "binade x = k"
proof -
  have x: "x \<noteq> 0" using assms(1) pow2_pos[of k] by (cases "x = 0") simp_all
  show ?thesis using binade_lower[OF assms(1)] binade_upper[OF x assms(2)] by linarith
qed

lemma quantum_pos [simp]: "0 < quantum p emin x"
  by (simp add: quantum_def)

lemma binade_neg [simp]: "binade (- x) = binade x"
  by (simp add: binade_def)

lemma quantum_neg [simp]: "quantum p emin (- x) = quantum p emin x"
  by (simp add: quantum_def)

lemma roundHalfEven_neg: "roundHalfEven (- q) = - roundHalfEven q"
proof (cases "q \<in> \<int>")
  case True
  then obtain k where "q = real_of_int k" by (auto elim: Ints_cases)
  then show ?thesis using roundHalfEven_int[of k] roundHalfEven_int[of "- k"] by simp
next
  case False
  then have "q \<noteq> real_of_int \<lfloor>q\<rfloor>" by (metis Ints_of_int)
  then have fl: "\<lfloor>- q\<rfloor> = - \<lfloor>q\<rfloor> - 1"
    by (simp add: floor_minus ceiling_altdef)
  have fr: "q - real_of_int \<lfloor>q\<rfloor> \<noteq> 0" using False by (metis Ints_of_int eq_iff_diff_eq_0)
  show ?thesis
    unfolding roundHalfEven_def Let_def fl using fr by (auto simp: algebra_simps)
qed

lemma roundFinite_neg: "roundFinite p emin (- x) = - roundFinite p emin x"
  by (simp add: roundFinite_def roundHalfEven_neg)

lemma roundFinite_0 [simp]: "roundFinite p emin 0 = 0"
  by (simp add: roundFinite_def)

lemma pow2_split: "(2::real) powi (a + b) = 2 powi a * 2 powi b"
  by (simp add: power_int_add)

lemma pow2_diff: "(2::real) powi (a - b) = 2 powi a / 2 powi b"
  by (simp add: power_int_diff)

lemma pow2_nat: "0 \<le> k \<Longrightarrow> (2::real) powi k = real_of_int (2 ^ nat k)"
  by (simp add: power_int_nonneg_exp)

lemma roundFinite_exact:
  assumes "x = real_of_int m * 2 powi e" "\<bar>m\<bar> < 2 ^ p" "emin - int p + 1 \<le> e"
  shows "roundFinite p emin x = x"
proof (cases "x = 0")
  case True then show ?thesis by simp
next
  case False
  define g where "g = max (binade x) emin - int p + 1"
  have "\<bar>x\<bar> = real_of_int \<bar>m\<bar> * 2 powi e" by (simp add: assms(1) abs_mult)
  also have "\<dots> < 2 ^ p * 2 powi e"
    using assms(2) by (intro mult_strict_right_mono) (simp_all add: of_int_less_iff[symmetric, where 'a = real] del: of_int_less_iff)
  also have "\<dots> = 2 powi (int p + e)" by (simp add: pow2_split)
  finally have "binade x < int p + e" using binade_upper[OF False] by simp
  then have ge: "g \<le> e" using assms(3) by (simp add: g_def)
  have "x / 2 powi g = real_of_int m * 2 powi (e - g)"
    by (simp add: assms(1) pow2_diff)
  also have "\<dots> = real_of_int (m * 2 ^ nat (e - g))"
    using ge by (simp add: pow2_nat)
  finally have q: "x / 2 powi g = real_of_int (m * 2 ^ nat (e - g))" .
  have "roundFinite p emin x = real_of_int (roundHalfEven (x / 2 powi g)) * 2 powi g"
    using False by (simp add: roundFinite_def quantum_def g_def)
  also have "\<dots> = x / 2 powi g * 2 powi g"
    by (simp only: q roundHalfEven_int)
  also have "\<dots> = x" by simp
  finally show ?thesis .
qed

lemma roundFinite_nonneg: "0 \<le> x \<Longrightarrow> 0 \<le> roundFinite p emin x"
proof -
  assume x: "0 \<le> x"
  have "0 \<le> x / quantum p emin x" using x by (intro divide_nonneg_pos) simp_all
  then have "roundHalfEven 0 \<le> roundHalfEven (x / quantum p emin x)"
    by (rule roundHalfEven_mono)
  then have "0 \<le> roundHalfEven (x / quantum p emin x)"
    using roundHalfEven_int[of 0] by simp
  then show ?thesis by (simp add: roundFinite_def zero_le_mult_iff less_imp_le)
qed

lemma roundFinite_nonpos: "x \<le> 0 \<Longrightarrow> roundFinite p emin x \<le> 0"
  using roundFinite_nonneg[of "- x" p emin] by (simp add: roundFinite_neg)

lemma scaled_less:
  assumes "x \<noteq> 0"
  shows "\<bar>x\<bar> / quantum p emin x < 2 ^ p"
proof -
  define g where "g = max (binade x) emin - int p + 1"
  have "\<bar>x\<bar> < 2 powi (binade x + 1)" by (rule binade_bounds(2)[OF assms])
  also have "\<dots> \<le> 2 powi (int p + g)" by (rule pow2_mono) (simp add: g_def)
  also have "\<dots> = 2 ^ p * 2 powi g" by (simp add: pow2_split)
  finally have "\<bar>x\<bar> < 2 ^ p * 2 powi g" .
  then show ?thesis by (simp add: quantum_def g_def[symmetric] pos_divide_less_eq)
qed

lemma roundHalfEven_le_int: "q \<le> real_of_int k \<Longrightarrow> roundHalfEven q \<le> k"
  using roundHalfEven_mono[of q "real_of_int k"] by (simp add: roundHalfEven_int)

lemma roundHalfEven_ge_int: "real_of_int k \<le> q \<Longrightarrow> k \<le> roundHalfEven q"
  using roundHalfEven_mono[of "real_of_int k" q] by (simp add: roundHalfEven_int)

lemma roundHalfEven_abs_le: "\<bar>q\<bar> \<le> real_of_int k \<Longrightarrow> \<bar>roundHalfEven q\<bar> \<le> k"
  using roundHalfEven_le_int[of q k] roundHalfEven_ge_int[of "- k" q] by (simp add: abs_le_iff)

lemma roundFinite_form:
  assumes "0 < p"
  shows "\<exists>m e. roundFinite p emin x = real_of_int m * 2 powi e \<and> \<bar>m\<bar> < 2 ^ p \<and>
               emin - int p + 1 \<le> e"
proof (cases "x = 0")
  case True
  have "roundFinite p emin x = real_of_int 0 * 2 powi (emin - int p + 1)" using True by simp
  then show ?thesis by (intro exI[of _ 0] exI[of _ "emin - int p + 1"]) simp
next
  case False
  define g where "g = max (binade x) emin - int p + 1"
  define m where "m = roundHalfEven (x / quantum p emin x)"
  have r: "roundFinite p emin x = real_of_int m * 2 powi g"
    using False by (simp add: roundFinite_def m_def quantum_def g_def)
  have "\<bar>x / quantum p emin x\<bar> \<le> real_of_int (2 ^ p)"
    using scaled_less[OF False, of p emin] quantum_pos[of p emin x]
    by (simp add: abs_of_pos)
  then have mle: "\<bar>m\<bar> \<le> 2 ^ p" unfolding m_def by (rule roundHalfEven_abs_le)
  have gmin: "emin - int p + 1 \<le> g" by (simp add: g_def)
  show ?thesis
  proof (cases "\<bar>m\<bar> < 2 ^ p")
    case True
    then show ?thesis using r gmin by blast
  next
    case False
    then have meq: "\<bar>m\<bar> = 2 ^ p" using mle by simp
    obtain p' where p': "p = Suc p'" using assms by (cases p) auto
    define m' where "m' = (if 0 \<le> m then (2::int) ^ p' else - (2 ^ p'))"
    have "m = 2 * m'" using meq by (auto simp: m'_def p' abs_if split: if_splits)
    then have "roundFinite p emin x = real_of_int m' * 2 powi (g + 1)"
      by (simp add: r pow2_split)
    moreover have "\<bar>m'\<bar> < 2 ^ p" by (simp add: m'_def p')
    ultimately show ?thesis using gmin
      by (intro exI[of _ m'] exI[of _ "g + 1"]) simp
  qed
qed

lemma roundFinite_pos_eq:
  "x \<noteq> 0 \<Longrightarrow> roundFinite p emin x
     = real_of_int (roundHalfEven (x / 2 powi (max (binade x) emin - int p + 1)))
         * 2 powi (max (binade x) emin - int p + 1)"
  by (simp add: roundFinite_def quantum_def)

lemma pow2_nat_mult: "g \<le> k \<Longrightarrow> 2 ^ nat (k - g) * 2 powi g = (2::real) powi k"
proof -
  assume "g \<le> k"
  then have "(2::real) ^ nat (k - g) = 2 powi (k - g)" by (simp add: power_int_nonneg_exp)
  then show ?thesis by (simp add: pow2_split[symmetric])
qed

lemma roundFinite_ge_binade:
  assumes "0 < p" "0 < x" "emin \<le> binade x"
  shows "2 powi (binade x) \<le> roundFinite p emin x"
proof -
  define b where "b = binade x"
  define g where "g = b - int p + 1"
  have x0: "x \<noteq> 0" using assms(2) by simp
  have mx: "max (binade x) emin = b" using assms(3) by (simp add: b_def)
  have bg: "0 \<le> b - g" using assms(1) by (simp add: g_def)
  have "2 powi b \<le> x" using binade_bounds(1)[OF x0] assms(2) by (simp add: b_def)
  then have "2 powi b / 2 powi g \<le> x / 2 powi g" by (simp add: divide_right_mono)
  then have "real_of_int (2 ^ nat (b - g)) \<le> x / 2 powi g"
    using bg by (simp add: pow2_diff[symmetric] pow2_nat)
  then have "2 ^ nat (b - g) \<le> roundHalfEven (x / 2 powi g)" by (rule roundHalfEven_ge_int)
  then have le: "real_of_int (2 ^ nat (b - g)) \<le> real_of_int (roundHalfEven (x / 2 powi g))"
    by (simp only: of_int_le_iff)
  have "2 powi b = real_of_int (2 ^ nat (b - g)) * 2 powi g"
    using bg by (simp add: pow2_nat_mult)
  also have "\<dots> \<le> real_of_int (roundHalfEven (x / 2 powi g)) * 2 powi g"
    using le by (rule mult_right_mono) simp
  also have "\<dots> = roundFinite p emin x"
    using x0 assms(3) by (simp add: roundFinite_pos_eq g_def b_def max_def)
  finally show ?thesis by (simp add: b_def)
qed

lemma roundFinite_ge_pow2:
  assumes "0 < p" "emin \<le> k" "2 powi k \<le> x"
  shows "2 powi k \<le> roundFinite p emin x"
proof -
  have x: "0 < x" using assms(3) pow2_pos[of k] by linarith
  have kb: "k \<le> binade x" using binade_lower[of k x] assms(3) x by simp
  have "2 powi k \<le> (2::real) powi (binade x)" using kb by (rule pow2_mono)
  also have "\<dots> \<le> roundFinite p emin x"
    using assms(1) x kb assms(2) by (intro roundFinite_ge_binade) simp_all
  finally show ?thesis .
qed

lemma roundFinite_le_pow2:
  assumes "0 < p" "emin - int p + 1 \<le> k" "x \<le> 2 powi k"
  shows "roundFinite p emin x \<le> 2 powi k"
proof (cases "x \<le> 0")
  case True
  then show ?thesis using roundFinite_nonpos[of x p emin] pow2_pos[of k] by linarith
next
  case False
  then have x: "0 < x" and x0: "x \<noteq> 0" by simp_all
  define g where "g = max (binade x) emin - int p + 1"
  have "2 powi (binade x) \<le> x" using binade_bounds(1)[OF x0] x by simp
  then have "(2::real) powi (binade x) \<le> 2 powi k" using assms(3) by linarith
  then have "binade x \<le> k" using pow2_less_iff[of k "binade x"] by (simp add: not_less[symmetric])
  then have gk: "0 \<le> k - g" using assms(1,2) by (simp add: g_def)
  have "x / 2 powi g \<le> 2 powi k / 2 powi g" using assms(3) by (simp add: divide_right_mono)
  then have "x / 2 powi g \<le> real_of_int (2 ^ nat (k - g))"
    using gk by (simp add: pow2_diff[symmetric] pow2_nat)
  then have "roundHalfEven (x / 2 powi g) \<le> 2 ^ nat (k - g)" by (rule roundHalfEven_le_int)
  then have le: "real_of_int (roundHalfEven (x / 2 powi g)) \<le> real_of_int (2 ^ nat (k - g))"
    by (simp only: of_int_le_iff)
  have "roundFinite p emin x = real_of_int (roundHalfEven (x / 2 powi g)) * 2 powi g"
    using x0 by (simp add: roundFinite_pos_eq g_def)
  also have "\<dots> \<le> real_of_int (2 ^ nat (k - g)) * 2 powi g"
    using le by (rule mult_right_mono) simp
  also have "\<dots> = 2 powi k"
    using gk by (simp add: pow2_nat_mult)
  finally show ?thesis .
qed

lemma roundFinite_mono_pos:
  assumes "0 < p" "0 < x" "x \<le> y"
  shows "roundFinite p emin x \<le> roundFinite p emin y"
proof -
  have x0: "x \<noteq> 0" and y: "0 < y" and y0: "y \<noteq> 0" using assms by simp_all
  define ex where "ex = max (binade x) emin"
  define ey where "ey = max (binade y) emin"
  have "2 powi (binade x) \<le> x" using binade_bounds(1)[OF x0] assms(2) by simp
  also have "\<dots> \<le> y" by (rule assms(3))
  also have "\<dots> < 2 powi (binade y + 1)" using binade_bounds(2)[OF y0] y by simp
  finally have bxy: "binade x \<le> binade y" by (simp add: pow2_less_iff)
  then have exy: "ex \<le> ey" by (simp add: ex_def ey_def)
  show ?thesis
  proof (cases "ex = ey")
    case True
    have "x / 2 powi (ex - int p + 1) \<le> y / 2 powi (ex - int p + 1)"
      using assms(3) by (simp add: divide_right_mono)
    then have "roundHalfEven (x / 2 powi (ex - int p + 1))
                 \<le> roundHalfEven (y / 2 powi (ex - int p + 1))"
      by (rule roundHalfEven_mono)
    then have "real_of_int (roundHalfEven (x / 2 powi (ex - int p + 1)))
                 \<le> real_of_int (roundHalfEven (y / 2 powi (ex - int p + 1)))"
      by (simp only: of_int_le_iff)
    then have "real_of_int (roundHalfEven (x / 2 powi (ex - int p + 1))) * 2 powi (ex - int p + 1)
           \<le> real_of_int (roundHalfEven (y / 2 powi (ex - int p + 1))) * 2 powi (ex - int p + 1)"
      by (simp add: mult_right_mono)
    then show ?thesis
      unfolding roundFinite_pos_eq[OF x0] roundFinite_pos_eq[OF y0] ex_def[symmetric]
        ey_def[symmetric] True[symmetric] .
  next
    case False
    then have lt: "ex + 1 \<le> ey" using exy by simp
    then have eyb: "ey = binade y" "emin \<le> binade y"
      by (auto simp: ex_def ey_def max_def split: if_splits)
    have "x < 2 powi (binade x + 1)" using binade_bounds(2)[OF x0] assms(2) by simp
    also have "\<dots> \<le> 2 powi (ex + 1)" by (rule pow2_mono) (simp add: ex_def)
    finally have "x \<le> 2 powi (ex + 1)" by simp
    then have "roundFinite p emin x \<le> 2 powi (ex + 1)"
      using assms(1) by (intro roundFinite_le_pow2) (simp_all add: ex_def)
    also have "\<dots> \<le> 2 powi (binade y)" using lt eyb(1) by (intro pow2_mono) simp
    also have "\<dots> \<le> roundFinite p emin y"
      using assms(1) y eyb(2) by (rule roundFinite_ge_binade)
    finally show ?thesis .
  qed
qed

lemma roundFinite_mono:
  assumes "0 < p" "x \<le> y"
  shows "roundFinite p emin x \<le> roundFinite p emin y"
proof -
  consider "0 < x" | "x \<le> 0" "0 \<le> y" | "y < 0" by linarith
  then show ?thesis
  proof cases
    case 1
    then show ?thesis using assms by (intro roundFinite_mono_pos)
  next
    case 2
    then show ?thesis
      using roundFinite_nonpos[of x p emin] roundFinite_nonneg[of y p emin] by linarith
  next
    case 3
    then have "roundFinite p emin (- y) \<le> roundFinite p emin (- x)"
      using assms by (intro roundFinite_mono_pos) simp_all
    then show ?thesis by (simp add: roundFinite_neg)
  qed
qed

lemma toFormat_exact:
  assumes "representable p emin emax r"
  shows "toFormat p emin emax r = Num r"
proof -
  from assms obtain m e where
    "r = real_of_int m * 2 powi e" "\<bar>m\<bar> < 2 ^ p" "emin - int p + 1 \<le> e"
    and lt: "\<bar>r\<bar> < 2 powi (emax + 1)"
    unfolding representable_def by blast
  then have "roundFinite p emin r = r" by (intro roundFinite_exact)
  then show ?thesis using lt by (simp add: toFormat_def)
qed

lemma toFormat_representable:
  assumes "0 < p" "toFormat p emin emax x = Num r"
  shows "representable p emin emax r"
proof -
  have r: "r = roundFinite p emin x" and lt: "\<bar>r\<bar> < 2 powi (emax + 1)"
    using assms(2) by (auto simp: toFormat_def Let_def split: if_splits)
  show ?thesis unfolding representable_def using roundFinite_form[OF assms(1), of emin x] lt r
    by simp
qed

lemma toFormat_overflow:
  assumes "0 < p" "emin \<le> emax + 1" "2 powi (emax + 1) \<le> x"
  shows "toFormat p emin emax x = PosInf"
proof -
  have "2 powi (emax + 1) \<le> roundFinite p emin x"
    using assms by (intro roundFinite_ge_pow2)
  then have "2 powi (emax + 1) \<le> \<bar>roundFinite p emin x\<bar>" by linarith
  moreover have "0 < x" using assms(3) pow2_pos[of "emax + 1"] by linarith
  ultimately show ?thesis by (simp add: toFormat_def Let_def)
qed

lemma toFormat_0 [simp]: "toFormat p emin emax 0 = Num 0"
  using pow2_pos[of "emax + 1"] by (simp add: toFormat_def not_le)

lemma single_representable_dbl:
  assumes "representable 24 (- 126) 127 r"
  shows "representable 53 (- 1022) 1023 r"
proof -
  from assms obtain m e where
    me: "r = real_of_int m * 2 powi e" "\<bar>m\<bar> < 2 ^ 24" "- 126 - int 24 + 1 \<le> e"
    and lt: "\<bar>r\<bar> < 2 powi (127 + 1)"
    unfolding representable_def by blast
  have "\<bar>m\<bar> < 2 ^ 53" using me(2) by simp
  moreover have "- 1022 - int 53 + 1 \<le> e" using me(3) by simp
  moreover have "\<bar>r\<bar> < 2 powi (1023 + 1)"
    using lt pow2_mono[of "127 + 1" "1023 + 1"] by linarith
  ultimately show ?thesis unfolding representable_def using me(1) by blast
qed

lemma dbl_of_single: "single x = Num r \<Longrightarrow> dbl r = Num r"
  unfolding single_def dbl_def
  by (intro toFormat_exact single_representable_dbl toFormat_representable[of 24 _ _ x]) simp_all

lemma single_idem: "single x = Num r \<Longrightarrow> single r = Num r"
  unfolding single_def
  by (intro toFormat_exact toFormat_representable[of 24 _ _ x]) simp_all

lemma dbl_idem: "dbl x = Num r \<Longrightarrow> dbl r = Num r"
  unfolding dbl_def
  by (intro toFormat_exact toFormat_representable[of 53 _ _ x]) simp_all

lemma fround_idem: "fround (fround v) = fround v"
proof (cases v)
  case (Num r)
  then show ?thesis by (cases "single r") (simp_all add: single_idem)
qed simp_all

lemma roundHalfEven_small:
  assumes "\<bar>q\<bar> < 1 / 2"
  shows "roundHalfEven q = 0"
proof (cases "0 \<le> q")
  case True
  then have "\<lfloor>q\<rfloor> = 0" using assms by (intro floor_unique) simp_all
  then show ?thesis using assms True by (simp add: roundHalfEven_def)
next
  case False
  then have "\<lfloor>q\<rfloor> = - 1" using assms by (intro floor_unique) simp_all
  then show ?thesis using assms False by (simp add: roundHalfEven_def)
qed

lemma roundFinite_underflow:
  assumes "\<bar>x\<bar> < 2 powi (emin - int p)"
  shows "roundFinite p emin x = 0"
proof (cases "x = 0")
  case True then show ?thesis by simp
next
  case False
  have "(2::real) powi (emin - int p) \<le> 2 powi emin" by (rule pow2_mono) simp
  then have "binade x < emin" using binade_upper[OF False, of emin] assms by linarith
  then have q: "quantum p emin x = 2 powi (emin - int p + 1)" by (simp add: quantum_def max_def)
  have "2 powi (emin - int p + 1) = 2 * (2::real) powi (emin - int p)"
    by (simp add: pow2_split)
  then have "\<bar>x / quantum p emin x\<bar> < 1 / 2"
    using assms by (simp add: q pos_divide_less_eq)
  then show ?thesis by (simp add: roundFinite_def roundHalfEven_small)
qed

lemma toFormat_underflow:
  "\<bar>x\<bar> < 2 powi (emin - int p) \<Longrightarrow> toFormat p emin emax x = Num 0"
  using pow2_pos[of "emax + 1"] by (simp add: toFormat_def roundFinite_underflow not_le)

lemma toFormat_of_int:
  assumes "\<bar>m\<bar> < 2 ^ p" "emin - int p + 1 \<le> 0" "int p \<le> emax + 1"
  shows "toFormat p emin emax (real_of_int m) = Num (real_of_int m)"
proof (rule toFormat_exact)
  have "\<bar>real_of_int m\<bar> < 2 ^ p"
    using assms(1) by (metis of_int_abs of_int_less_iff of_int_numeral of_int_power)
  also have "\<dots> = 2 powi (int p)" by simp
  also have "\<dots> \<le> 2 powi (emax + 1)" using assms(3) by (rule pow2_mono)
  finally have "\<bar>real_of_int m\<bar> < 2 powi (emax + 1)" .
  moreover have "real_of_int m = real_of_int m * 2 powi 0" by simp
  ultimately show "representable p emin emax (real_of_int m)"
    unfolding representable_def using assms(1,2) by blast
qed

lemma toFormat_pow2:
  assumes "0 < p" "emin - int p + 1 \<le> k" "k \<le> emax"
  shows "toFormat p emin emax (2 powi k) = Num (2 powi k)"
proof (rule toFormat_exact)
  have "(2::real) powi k < 2 powi (emax + 1)" using assms(3) by (simp add: pow2_less_iff)
  moreover have "(2::real) powi k = real_of_int 1 * 2 powi k" by simp
  moreover have "\<bar>1::int\<bar> < 2 ^ p" using assms(1) by simp
  ultimately show "representable p emin emax (2 powi k)"
    unfolding representable_def using assms(2) by (metis abs_of_pos pow2_pos)
qed

lemma dbl_of_int: "\<bar>m\<bar> < 2 ^ 53 \<Longrightarrow> dbl (real_of_int m) = Num (real_of_int m)"
  unfolding dbl_def by (rule toFormat_of_int) simp_all

lemma single_of_int: "\<bar>m\<bar> < 2 ^ 24 \<Longrightarrow> single (real_of_int m) = Num (real_of_int m)"
  unfolding single_def by (rule toFormat_of_int) simp_all



lemma dbl_0 [simp]: "dbl 0 = Num 0"
  by (simp add: dbl_def)

lemma dbl_1 [simp]: "dbl 1 = Num 1"
  using dbl_of_int[of 1] by simp



lemma single_0 [simp]: "single 0 = Num 0"
  by (simp add: single_def)

lemma single_1 [simp]: "single 1 = Num 1"
  using single_of_int[of 1] by simp

lemma dbl_neg_1 [simp]: "dbl (- 1) = Num (- 1)"
  using dbl_of_int[of "- 1"] by simp


lemma dbl_pow2: "- 1074 \<le> k \<Longrightarrow> k \<le> 1023 \<Longrightarrow> dbl (2 powi k) = Num (2 powi k)"
  unfolding dbl_def by (rule toFormat_pow2) simp_all

lemma single_pow2: "- 149 \<le> k \<Longrightarrow> k \<le> 127 \<Longrightarrow> single (2 powi k) = Num (2 powi k)"
  unfolding single_def by (rule toFormat_pow2) simp_all

lemma dbl_overflow: "2 powi 1024 \<le> x \<Longrightarrow> dbl x = PosInf"
  unfolding dbl_def using toFormat_overflow[of 53 "- 1022" 1023 x] by simp

lemma single_overflow: "2 powi 128 \<le> x \<Longrightarrow> single x = PosInf"
  unfolding single_def using toFormat_overflow[of 24 "- 126" 127 x] by simp

lemma dbl_underflow: "\<bar>x\<bar> < 2 powi (- 1075) \<Longrightarrow> dbl x = Num 0"
  unfolding dbl_def using toFormat_underflow[of x "- 1022" 53 1023] by simp


lemma dbl_cases:
  assumes "0 \<le> x"
  shows "dbl x = PosInf \<or> (\<exists>r. dbl x = Num r \<and> 0 \<le> r)"
proof (cases "x = 0")
  case True
  then show ?thesis by simp
next
  case False
  then have "0 < x" using assms by simp
  then show ?thesis
    using roundFinite_nonneg[OF assms, of 53 "- 1022"]
    by (simp add: dbl_def toFormat_def Let_def del: power_int_numeral)
qed

lemma single_cases:
  assumes "0 \<le> x"
  shows "single x = PosInf \<or> (\<exists>r. single x = Num r \<and> 0 \<le> r)"
proof (cases "x = 0")
  case True
  then show ?thesis by simp
next
  case False
  then have "0 < x" using assms by simp
  then show ?thesis
    using roundFinite_nonneg[OF assms, of 24 "- 126"]
    by (simp add: single_def toFormat_def Let_def del: power_int_numeral)
qed

lemma dbl_not_NaN [simp]: "dbl x \<noteq> NaN"
  by (simp add: dbl_def toFormat_def Let_def)

lemma single_not_NaN [simp]: "single x \<noteq> NaN"
  by (simp add: single_def toFormat_def Let_def)

lemmas float_ops = jsMax_def jsMin_def jsLessEq_def dblSub_def clampFloat_def cellAt_def

lemma dblAdd_0_dbl: "dblAdd (Num 0) (dbl x) = dbl x"
proof (cases "dbl x")
  case (Num r)
  then show ?thesis using dbl_idem[OF Num] by simp
qed (simp_all)

lemma toFormat_bounds:
  assumes "0 < p" "emin \<le> a" "b \<le> emax" "2 powi a \<le> x" "x \<le> 2 powi b"
  shows "\<exists>v. toFormat p emin emax x = Num v \<and> 2 powi a \<le> v \<and> v \<le> 2 powi b"
proof -
  define v where "v = roundFinite p emin x"
  have lo: "2 powi a \<le> v" unfolding v_def using assms by (intro roundFinite_ge_pow2)
  have "a \<le> b" using assms(4,5) pow2_less_iff[of b a] by (cases "a \<le> b") auto
  then have "emin - int p + 1 \<le> b" using assms(1,2) by simp
  then have hi: "v \<le> 2 powi b" unfolding v_def using assms by (intro roundFinite_le_pow2)
  have "(2::real) powi b < 2 powi (emax + 1)" using assms(3) by (simp add: pow2_less_iff)
  then have "\<bar>v\<bar> < 2 powi (emax + 1)" using lo hi pow2_pos[of a] by linarith
  then have "toFormat p emin emax x = Num v"
    by (simp add: toFormat_def v_def[symmetric] Let_def not_le)
  then show ?thesis using lo hi by simp
qed

section \<open>Properties of the payload validation\<close>










text \<open>
  The length check compares with the double \<open>size * size\<close>: a payload of size
  \<open>2 ^ - 600\<close> without cells is loaded, the product having underflowed to 0, and a finite
  cell beyond the 32-bit range is loaded as \<open>Infinity\<close>.
\<close>

lemma deserializeWorld_underflow:
  "deserializeWorld coerceNaN vanishingPayload =
     Inr \<lparr>ws_version = 1, ws_size = 2 powi (- 600), ws_terrainSeed = 0, ws_terrain = [],
          ws_water = [], ws_sources = [], ws_vegetationSeed = 0, ws_time = 0\<rparr>"
proof -
  have "\<bar>(2::real) powi (- 600) * 2 powi (- 600)\<bar> < 2 powi (- 1075)"
    by (simp add: pow2_split[symmetric] pow2_less_iff)
  then have "dblMul (Num (2 powi (- 600))) (Num (2 powi (- 600))) = Num 0"
    by (simp only: dblMul.simps dbl_underflow)
  then show ?thesis
    by (simp add: deserializeWorld_def vanishingPayload_def isObject_def field_def
          isFiniteNumber_def isArray_def elementsOf_def numberOf_def validateSources_def
          float32From_def del: power_int_numeral_neg_numeral power_int_minus)
qed

lemma float32From_overflow:
  "float32From coerce [JNum (Num (10 ^ 39))] = [PosInf]"
proof -
  have "(2::real) ^ 128 \<le> 10 ^ 39" by simp
  then have "single (10 ^ 39) = PosInf" by (intro single_overflow) simp
  then show ?thesis by (simp add: float32From_def toNumber_def)
qed

section \<open>Properties of terrain generation\<close>

lemma smoothTerrain_NaN: "smoothTerrain [NaN] (Suc 0) blend = [NaN]"
  by (simp add: smoothTerrain_def cells_1 smoothCell_def neighbourOffsets_def
        smoothAccumulate_def toIndex_def Let_def)

text \<open>
  Claim C4 at size 1.  The normalised coordinate \<open>x / (size - 1)\<close> is \<open>0 / 0\<close>, the
  per-cell clamp passes the \<open>NaN\<close> through, and so do both smoothing passes: the generated
  terrain is \<open>[NaN]\<close> for every seed, which is not within \<open>[-12, 24]\<close>.
\<close>

theorem generateBaseTerrain_size_one:
  "generateBaseTerrain 1 seed = [NaN] \<and>
   ws_terrain (createInitialWorld 1 seed rnd) = [NaN] \<and>
   \<not> list_all cellInRange (ws_terrain (createInitialWorld 1 seed rnd))"
proof -
  have "fold (baseCell (Suc 0) seed) (cells (Suc 0)) (replicate (Suc 0 * Suc 0) (Num 0)) = [NaN]"
    by (simp add: cells_1 baseCell_def toIndex_def Let_def)
  then have "generateBaseTerrain 1 seed = [NaN]"
    by (simp add: generateBaseTerrain_def Let_def smoothTerrain_NaN)
  then show ?thesis by (simp add: createInitialWorld_def Let_def cellInRange_def)
qed

lemma fold_writes_all:
  assumes step: "\<And>c t. c \<in> set cs \<Longrightarrow> \<exists>v. f c t = t[ix c := v] \<and> P v"
  shows "length (fold f cs t) = length t \<and>
         (\<forall>j < length t. j \<in> ix ` set cs \<or> P (t ! j) \<longrightarrow> P (fold f cs t ! j))"
  using step
proof (induction cs arbitrary: t)
  case Nil
  then show ?case by simp
next
  case (Cons c cs)
  obtain v where v: "f c t = t[ix c := v]" "P v" using Cons.prems[of c t] by auto
  have IH: "length (fold f cs (f c t)) = length (f c t) \<and>
         (\<forall>j < length (f c t). j \<in> ix ` set cs \<or> P (f c t ! j) \<longrightarrow> P (fold f cs (f c t) ! j))"
    using Cons.IH[of "f c t"] Cons.prems by simp
  have "P (fold f (c # cs) t ! j)" if j: "j < length t" and h: "j \<in> ix ` set (c # cs) \<or> P (t ! j)" for j
  proof -
    have len: "length (f c t) = length t" using v(1) by simp
    have "j \<in> ix ` set cs \<or> P (f c t ! j)"
      using h j v by (cases "j = ix c") auto
    then have "P (fold f cs (f c t) ! j)" using IH j len by auto
    then show ?thesis by simp
  qed
  then show ?case using IH v(1) by simp
qed

lemma inRange_bounds: "cellInRange c \<longleftrightarrow> (\<exists>v. c = Num v \<and> - 12 \<le> v \<and> v \<le> 24)"
  by (cases c) (simp_all add: cellInRange_def inHeightRange_def MIN_TERRAIN_HEIGHT_def
        MAX_TERRAIN_HEIGHT_def)

lemma cellHeight_bounds: "- 12 \<le> cellHeight nx ny seed \<and> cellHeight nx ny seed \<le> 24"
  by (simp add: cellHeight_def Let_def clamp_def MIN_TERRAIN_HEIGHT_def MAX_TERRAIN_HEIGHT_def)

lemma baseCell_writes:
  assumes "sz \<noteq> 1"
  shows "\<exists>v. baseCell sz seed c t = t[toIndex sz (fst c) (snd c) := v] \<and> cellInRange v"
proof -
  have nz: "real sz - 1 \<noteq> 0" using assms by simp
  obtain x y where xy: "c = (x, y)" by (cases c)
  let ?v = "Num (cellHeight (real x / (real sz - 1)) (real y / (real sz - 1)) seed)"
  have "baseCell sz seed c t = t[toIndex sz (fst c) (snd c) := ?v]"
    unfolding baseCell_def Let_def xy using nz by simp
  moreover have "cellInRange ?v"
    using cellHeight_bounds by (simp add: inRange_bounds)
  ultimately show ?thesis by blast
qed

lemma smoothAccumulate_inv:
  assumes src: "length source = sz * sz" "\<forall>j < sz * sz. cellInRange (source ! j)"
      and acc: "\<exists>s. fst acc = Num s \<and> - 12 * real (snd acc) \<le> s \<and> s \<le> 24 * real (snd acc)"
  shows "\<exists>s. fst (smoothAccumulate source sz x y off acc) = Num s \<and>
             - 12 * real (snd (smoothAccumulate source sz x y off acc)) \<le> s \<and>
             s \<le> 24 * real (snd (smoothAccumulate source sz x y off acc))"
proof -
  obtain ox oy where off: "off = (ox, oy)" by (cases off)
  obtain tot cnt where a: "acc = (tot, cnt)" by (cases acc)
  obtain s where s: "tot = Num s" "- 12 * real cnt \<le> s" "s \<le> 24 * real cnt"
    using acc a by auto
  let ?nx = "int x + ox" and ?ny = "int y + oy"
  show ?thesis
  proof (cases "?nx < 0 \<or> ?nx \<ge> int sz \<or> ?ny < 0 \<or> ?ny \<ge> int sz")
    case True
    then show ?thesis using s by (simp add: smoothAccumulate_def off a Let_def)
  next
    case False
    then have b: "nat ?nx < sz" "nat ?ny < sz" "0 \<le> ?nx" "0 \<le> ?ny" by auto
    have "nat (toIndex (int sz) ?nx ?ny) = toIndex sz (nat ?nx) (nat ?ny)"
      using b by (simp add: toIndex_def nat_add_distrib nat_mult_distrib)
    then have "nat (toIndex (int sz) ?nx ?ny) < sz * sz"
      using toIndex_bound[OF b(1,2)] by simp
    then obtain v where v: "source ! nat (toIndex (int sz) ?nx ?ny) = Num v" "- 12 \<le> v" "v \<le> 24"
      using src(2) by (auto simp: inRange_bounds)
    have "smoothAccumulate source sz x y off acc = (Num (s + v), cnt + 1)"
      using False v(1) s(1) by (simp add: smoothAccumulate_def off a Let_def)
    then show ?thesis using s v by (simp add: algebra_simps)
  qed
qed

lemma fold_smoothAccumulate_inv:
  assumes src: "length source = sz * sz" "\<forall>j < sz * sz. cellInRange (source ! j)"
      and acc: "\<exists>s. fst acc = Num s \<and> - 12 * real (snd acc) \<le> s \<and> s \<le> 24 * real (snd acc)"
  shows "\<exists>s. fst (fold (smoothAccumulate source sz x y) offs acc) = Num s \<and>
             - 12 * real (snd (fold (smoothAccumulate source sz x y) offs acc)) \<le> s \<and>
             s \<le> 24 * real (snd (fold (smoothAccumulate source sz x y) offs acc))"
  using acc
proof (induction offs arbitrary: acc)
  case Nil
  then show ?case by simp
next
  case (Cons off offs)
  show ?case
    using Cons.IH[OF smoothAccumulate_inv[OF src Cons.prems, of x y off]] by simp
qed

lemma average_bounds:
  fixes s :: real
  assumes "- 12 * real n \<le> s" "s \<le> 24 * real n"
  shows "- 12 \<le> s / max 1 (real n) \<and> s / max 1 (real n) \<le> 24"
proof (cases "n = 0")
  case True
  then show ?thesis using assms by simp
next
  case False
  then have n: "0 < real n" "max 1 (real n) = real n" by simp_all
  show ?thesis
    unfolding n(2) using n(1) assms
    by (simp add: pos_le_divide_eq pos_divide_le_eq mult.commute)
qed

lemma blend_bounds:
  fixes a b v :: real
  assumes "0 \<le> b" "b \<le> 1" "- 12 \<le> a" "a \<le> 24" "- 12 \<le> v" "v \<le> 24"
  shows "- 12 \<le> a * (1 - b) + v * b \<and> a * (1 - b) + v * b \<le> 24"
proof -
  have b': "0 \<le> 1 - b" using assms by simp
  have "- 12 * (1 - b) \<le> a * (1 - b)" by (rule mult_right_mono[OF assms(3) b'])
  moreover have "a * (1 - b) \<le> 24 * (1 - b)" by (rule mult_right_mono[OF assms(4) b'])
  moreover have "- 12 * b \<le> v * b" by (rule mult_right_mono[OF assms(5) assms(1)])
  moreover have "v * b \<le> 24 * b" by (rule mult_right_mono[OF assms(6) assms(1)])
  ultimately show ?thesis by (simp add: algebra_simps)
qed

lemma smoothCell_writes:
  assumes src: "length source = sz * sz" "\<forall>j < sz * sz. cellInRange (source ! j)"
      and c: "c \<in> set (cells sz)" and b: "0 \<le> blend" "blend \<le> 1"
  shows "\<exists>v. smoothCell source sz blend c t = t[toIndex sz (fst c) (snd c) := v] \<and> cellInRange v"
proof -
  obtain x y where xy: "c = (x, y)" by (cases c)
  obtain tot cnt where f: "fold (smoothAccumulate source sz x y) neighbourOffsets (Num 0, 0) = (tot, cnt)"
    by (cases "fold (smoothAccumulate source sz x y) neighbourOffsets (Num 0, 0)")
  have "\<exists>s. fst (Num 0, 0::nat) = Num s \<and> - 12 * real (snd (Num 0, 0::nat)) \<le> s
            \<and> s \<le> 24 * real (snd (Num 0, 0::nat))" by simp
  from fold_smoothAccumulate_inv[OF src this, of x y neighbourOffsets]
  obtain s where s: "tot = Num s" "- 12 * real cnt \<le> s" "s \<le> 24 * real cnt"
    unfolding f by auto
  have "toIndex sz x y < sz * sz" using index_cells_bound[OF c] xy by simp
  then obtain a where a: "source ! toIndex sz x y = Num a" "- 12 \<le> a" "a \<le> 24"
    using src(2) by (auto simp: inRange_bounds)
  have m: "max 1 (real cnt) \<noteq> 0" by simp
  have eq: "smoothCell source sz blend c t
        = t[toIndex sz x y := Num (a * (1 - blend) + s / max 1 (real cnt) * blend)]"
    unfolding smoothCell_def xy Let_def prod.case f s(1) a(1)
    using m by (simp del: max_less_iff_conj)
  have "cellInRange (Num (a * (1 - blend) + s / max 1 (real cnt) * blend))"
    using blend_bounds[OF b a(2,3), of "s / max 1 (real cnt)"] average_bounds[OF s(2,3)]
    unfolding inRange_bounds by blast
  then show ?thesis using eq xy by auto
qed

lemma smoothTerrain_bounds:
  assumes src: "length terrain = sz * sz" "\<forall>j < sz * sz. cellInRange (terrain ! j)"
      and b: "0 \<le> blend" "blend \<le> 1"
  shows "length (smoothTerrain terrain sz blend) = sz * sz \<and>
         (\<forall>j < sz * sz. cellInRange (smoothTerrain terrain sz blend ! j))"
  unfolding smoothTerrain_def
  using fold_writes_all[of "cells sz" "smoothCell terrain sz blend"
          "\<lambda>c. toIndex sz (fst c) (snd c)" cellInRange terrain]
        smoothCell_writes[OF src _ b] src
  by auto

text \<open>
  For every other size the bound holds: the array has \<open>size * size\<close> cells, each a finite
  number within \<open>[-12, 24]\<close>, after the per-cell clamp and the two smoothing passes.
\<close>

lemma generateBaseTerrain_bounds:
  assumes "sz \<noteq> 1"
  shows "length (generateBaseTerrain sz seed) = sz * sz \<and>
         list_all cellInRange (generateBaseTerrain sz seed)"
proof -
  let ?t0 = "fold (baseCell sz seed) (cells sz) (replicate (sz * sz) (Num 0))"
  have cover: "j \<in> (\<lambda>c. toIndex sz (fst c) (snd c)) ` set (cells sz)" if "j < sz * sz" for j
    using index_cells_surj[OF that] by auto
  have t0: "length ?t0 = sz * sz \<and> (\<forall>j < sz * sz. cellInRange (?t0 ! j))"
    using fold_writes_all[of "cells sz" "baseCell sz seed" "\<lambda>c. toIndex sz (fst c) (snd c)"
            cellInRange "replicate (sz * sz) (Num 0)"]
          baseCell_writes[OF assms] cover
    by auto
  have t1: "length (smoothTerrain ?t0 sz 0.16) = sz * sz \<and>
            (\<forall>j < sz * sz. cellInRange (smoothTerrain ?t0 sz 0.16 ! j))"
    using smoothTerrain_bounds[of ?t0 sz "0.16"] t0 by simp
  have t2: "length (smoothTerrain (smoothTerrain ?t0 sz 0.16) sz 0.08) = sz * sz \<and>
            (\<forall>j < sz * sz. cellInRange (smoothTerrain (smoothTerrain ?t0 sz 0.16) sz 0.08 ! j))"
    using smoothTerrain_bounds[of "smoothTerrain ?t0 sz 0.16" sz "0.08"] t1 by simp
  then show ?thesis
    unfolding generateBaseTerrain_def Let_def by (simp add: list_all_length)
qed

text \<open>
  Two calls of \<open>createInitialWorld\<close> with the same size and seed compute the same terrain
  and the same sources, whatever the platform's random state hands to each call: the random
  draw reaches the vegetation seed only.  For every size other than 1 the cells are finite,
  so the two terrains are numerically identical.
\<close>

lemma createInitialWorld_repeatable:
  assumes "sz \<noteq> 1"
  shows "list_all2 withinTolerance (ws_terrain (createInitialWorld sz seed rnd1))
           (ws_terrain (createInitialWorld sz seed rnd2)) \<and>
         ws_sources (createInitialWorld sz seed rnd1) = ws_sources (createInitialWorld sz seed rnd2)"
proof -
  have "withinTolerance c c" if "c \<in> set (generateBaseTerrain sz seed)" for c
  proof -
    have "cellInRange c"
      using generateBaseTerrain_bounds[OF assms, of seed] that by (simp add: list_all_iff)
    then show ?thesis by (auto simp: inRange_bounds withinTolerance_def)
  qed
  then have "list_all2 withinTolerance (generateBaseTerrain sz seed) (generateBaseTerrain sz seed)"
    by (simp add: list_all2_same)
  then show ?thesis by (simp add: createInitialWorld_def Let_def)
qed



section \<open>Properties of the solver in IEEE arithmetic\<close>

lemma cells_2: "cells 2 = [(0, 0), (1, 0), (0, 1), (1, 1)]"
  by (simp add: cells_def numeral_2_eq_2 upt_rec)

lemma surge_facts:
  "dbl surge = Num surge" "dbl (surge * surge) = PosInf" "0 < surge" "1 \<le> surge"
proof -
  have s: "surge = 2 powi 600" by (simp add: surge_def)
  show "dbl surge = Num surge" unfolding s by (rule dbl_pow2) simp_all
  have "surge * surge = 2 powi 1200" unfolding s by (simp add: pow2_split[symmetric])
  moreover have "(2::real) powi 1024 \<le> 2 powi 1200" by (rule pow2_mono) simp
  ultimately show "dbl (surge * surge) = PosInf" by (simp only: dbl_overflow)
  show "0 < surge" "1 \<le> surge" by (simp_all add: surge_def)
qed

lemma tick_floor:
  "\<exists>r. dbl (1 / 10000) = Num r \<and> 1 / 16384 \<le> r \<and> r \<le> 1 / 8192"
proof -
  define r where "r = roundFinite 53 (- 1022) (1 / 10000)"
  have lo: "2 powi (- 14) \<le> r"
    unfolding r_def by (rule roundFinite_ge_pow2) simp_all
  have hi: "r \<le> 2 powi (- 13)"
    unfolding r_def by (rule roundFinite_le_pow2) simp_all
  have "(2::real) powi (- 13) < 2 powi (1023 + 1)" by (subst pow2_less_iff) simp
  then have "\<bar>r\<bar> < 2 powi (1023 + 1)"
    using lo hi pow2_pos[of "- 14"] by linarith
  then have "dbl (1 / 10000) = Num r"
    by (simp add: dbl_def toFormat_def r_def[symmetric] Let_def not_le del: power_int_numeral)
  then show ?thesis using lo hi by simp
qed

lemma surge_dt: "jsMax (dbl (1 / 10000)) (Num surge) = Num surge"
proof -
  obtain r where r: "dbl (1 / 10000) = Num r" "r \<le> 1 / 8192" using tick_floor by blast
  have "r < surge" using r(2) surge_facts(4) by linarith
  then show ?thesis by (simp add: jsMax_def r(1))
qed

lemma pond_delta:
  "fold (flowCellFloat pondWorld (Num surge) (Num surge)) (cells (ws_size pondWorld))
     (replicate (length (ws_water pondWorld)) (Num 0)) = [NaN, NaN, NaN, Num 0]"
  by (simp add: pondWorld_def cells_2 flowCellFloat_def neighbourPotentialFloat_def
        transferFloat_def toIndex_def Let_def float_ops surge_facts)

lemma pond_step:
  "ws_water (stepWaterFloat pondWorld surgeParams) = [NaN, NaN, NaN, Num 0]"
proof -
  have inj: "fold (injectSourceFloat (Num surge)) (ws_sources pondWorld) pondWorld = pondWorld"
    by (simp add: pondWorld_def)
  have p: "jsMax (Num 0) (Num surge) = Num surge" using surge_facts(3) by (simp add: jsMax_def)
  have z: "jsMax (Num 0) (Num 0) = Num 0" by (simp add: jsMax_def)
  have prm: "p_dt surgeParams = surge" "p_flowRate surgeParams = surge"
    "p_damping surgeParams = 0" "p_evaporation surgeParams = 0"
    "orZero (p_seepage surgeParams) = 0" "orZero (p_edgeDrain surgeParams) = 0"
    by (simp_all add: surgeParams_def orZero_def)
  have df: "clampFloat (dblSub (Num 1) (dblMul (Num 0) (Num surge))) (Num 0) (Num 1) = Num 1"
    by (simp add: float_ops)
  have ev: "dblMul (Num 0) (Num surge) = Num 0" by simp
  have "stepWaterFloat pondWorld surgeParams
          = fold (lossCellFloat (Num surge) (Num 1) (Num 0) (Num 0) (Num 0) [NaN, NaN, NaN, Num 0])
              (cells (ws_size pondWorld)) pondWorld"
    unfolding stepWaterFloat_def Let_def prm surge_dt p z inj pond_delta ev
    by (simp add: float_ops)
  then show ?thesis
    by (simp add: pondWorld_def cells_2 lossCellFloat_def toIndex_def Let_def float_ops surge_facts)
qed

lemma transferFloat_skip: "\<not> jsLess (Num 0) p \<Longrightarrow> transferFloat i n p s d = d"
  by (simp add: transferFloat_def)

lemma potential_zero_rate:
  "\<not> jsLess (Num 0) (neighbourPotentialFloat s th (Num 0) (Num d) k)"
proof -
  have "\<not> jsLess (Num 0) (dblMul (dblMul diff (Num 0)) (Num d))" for diff
    by (cases diff) simp_all
  then show ?thesis by (simp add: neighbourPotentialFloat_def Let_def)
qed

lemma flowCellFloat_zero_rate: "flowCellFloat s (Num 0) (Num d) c delta = delta"
  unfolding flowCellFloat_def Let_def
  by (simp add: transferFloat_skip potential_zero_rate split: prod.split)

lemma fold_flowCellFloat_zero_rate: "fold (flowCellFloat s (Num 0) (Num d)) cs delta = delta"
  by (induction cs) (simp_all add: flowCellFloat_zero_rate)

lemma update_cellAt: "w[i := g (cellAt w i)] = w[i := g (w ! i)]"
  by (cases "i < length w") (simp_all add: cellAt_def list_update_beyond)

lemma lossCellFloat_eq:
  "lossCellFloat dt df el sp ed delta c s =
     s\<lparr>ws_water := (ws_water s)[toIndex (ws_size s) (fst c) (snd c) :=
          lossValueFloat (ws_size s) dt df el sp ed delta c
            (ws_water s ! toIndex (ws_size s) (fst c) (snd c))]\<rparr>"
proof -
  have "lossCellFloat dt df el sp ed delta c s =
     s\<lparr>ws_water := (ws_water s)[toIndex (ws_size s) (fst c) (snd c) :=
          lossValueFloat (ws_size s) dt df el sp ed delta c
            (cellAt (ws_water s) (toIndex (ws_size s) (fst c) (snd c)))]\<rparr>"
    unfolding lossCellFloat_def lossValueFloat_def Let_def by (cases c) simp
  then show ?thesis by (simp only: update_cellAt)
qed

lemma ws_water_fold_lossCellFloat:
  "ws_water (fold (lossCellFloat dt df el sp ed delta) cs s) =
     fold (\<lambda>c w. w[toIndex (ws_size s) (fst c) (snd c) :=
                   lossValueFloat (ws_size s) dt df el sp ed delta c
                     (w ! toIndex (ws_size s) (fst c) (snd c))])
       cs (ws_water s)"
proof (induction cs arbitrary: s)
  case Nil
  then show ?case by simp
next
  case (Cons c cs)
  have sz: "ws_size (lossCellFloat dt df el sp ed delta c s) = ws_size s"
    by (simp add: lossCellFloat_eq)
  show ?case
    by (simp add: Cons.IH sz) (simp add: lossCellFloat_eq)
qed

lemma lossPassFloat_nth:
  assumes len: "length (ws_water s) = ws_size s * ws_size s"
      and c: "c \<in> set (cells (ws_size s))"
  shows "ws_water (fold (lossCellFloat dt df el sp ed delta) (cells (ws_size s)) s)
           ! toIndex (ws_size s) (fst c) (snd c)
         = lossValueFloat (ws_size s) dt df el sp ed delta c
             (ws_water s ! toIndex (ws_size s) (fst c) (snd c))"
proof -
  have "toIndex (ws_size s) (fst c) (snd c) < length (ws_water s)"
    using index_cells_bound[OF c] len by simp
  then show ?thesis
    unfolding ws_water_fold_lossCellFloat
    using fold_pointwise_hit[of "\<lambda>c. toIndex (ws_size s) (fst c) (snd c)" "cells (ws_size s)" c
            "ws_water s" "lossValueFloat (ws_size s) dt df el sp ed delta"]
          distinct_index_cells[of "ws_size s"] c
    by simp
qed

lemma lossPassFloat_length:
  "length (ws_water (fold (lossCellFloat dt df el sp ed delta) cs s)) = length (ws_water s)"
  unfolding ws_water_fold_lossCellFloat by (rule fold_pointwise_length)

lemma injectSourceFloat_inactive: "\<not> src_active src \<Longrightarrow> injectSourceFloat dt src s = s"
  by (simp add: injectSourceFloat_def)

lemma fold_injectSourceFloat_active:
  "fold (injectSourceFloat dt) srcs s = fold (injectSourceFloat dt) (filter src_active srcs) s"
  by (induction srcs arbitrary: s) (simp_all add: injectSourceFloat_inactive)

lemma injectSourceFloat_frame:
  "\<exists>w. injectSourceFloat dt src s = s\<lparr>ws_water := w\<rparr> \<and> length w = length (ws_water s)"
proof (cases "injectSourceFloat dt src s = s")
  case True
  then have "injectSourceFloat dt src s = s\<lparr>ws_water := ws_water s\<rparr>" by simp
  then show ?thesis by blast
next
  case False
  then show ?thesis
    unfolding injectSourceFloat_def Let_def
    by (auto split: if_splits intro!: exI[of _ "(ws_water s)[_ := _]"])
qed

lemma tick_floor_max:
  "\<exists>d. jsMax (dbl (1 / 10000)) (Num t) = Num d \<and> 0 < d"
proof -
  obtain r where r: "dbl (1 / 10000) = Num r" "1 / 16384 \<le> r" using tick_floor by blast
  show ?thesis
  proof (cases "r < t")
    case True
    then have "jsMax (dbl (1 / 10000)) (Num t) = Num t" by (simp add: jsMax_def r(1))
    moreover have "0 < t" using True r(2) by linarith
    ultimately show ?thesis by simp
  next
    case False
    then have "jsMax (dbl (1 / 10000)) (Num t) = Num r" by (simp add: jsMax_def r(1))
    then show ?thesis using r(2) by simp
  qed
qed

lemma tick_floor_below: "1 / 8192 < t \<Longrightarrow> jsMax (dbl (1 / 10000)) (Num t) = Num t"
proof -
  assume t: "1 / 8192 < t"
  obtain r where r: "dbl (1 / 10000) = Num r" "r \<le> 1 / 8192" using tick_floor by blast
  have "r < t" using r(2) t by linarith
  then show ?thesis by (simp add: jsMax_def r(1))
qed

lemma tick_floor_above: "t < 1 / 16384 \<Longrightarrow> jsMax (dbl (1 / 10000)) (Num t) = dbl (1 / 10000)"
proof -
  assume t: "t < 1 / 16384"
  obtain r where r: "dbl (1 / 10000) = Num r" "1 / 16384 \<le> r" using tick_floor by blast
  have "\<not> r < t" using r(2) t by linarith
  then show ?thesis by (simp add: jsMax_def r(1))
qed

lemma tick_floor_single:
  "\<exists>v. fround (dbl (1 / 10000)) = Num v \<and> 1 / 16384 \<le> v"
proof -
  obtain r where r: "dbl (1 / 10000) = Num r" "1 / 16384 \<le> r" "r \<le> 1 / 8192"
    using tick_floor by blast
  have "\<exists>v. toFormat 24 (- 126) 127 r = Num v \<and> 2 powi (- 14) \<le> v \<and> v \<le> 2 powi (- 13)"
    using r(2,3) by (intro toFormat_bounds) simp_all
  then show ?thesis by (auto simp: r(1) single_def)
qed

lemma floor_value:
  "fround (jsMax (Num 0) v) = NaN \<or> nonNegative (fround (jsMax (Num 0) v))"
proof (cases v)
  case (Num r)
  have "jsMax (Num 0) (Num r) = Num (max 0 r)" by (simp add: jsMax_def max_def)
  moreover have "single (max 0 r) = PosInf \<or> (\<exists>u. single (max 0 r) = Num u \<and> 0 \<le> u)"
    by (rule single_cases) simp
  ultimately show ?thesis using Num by (auto simp: nonNegative_def jsLessEq_def)
qed (simp_all add: jsMax_def nonNegative_def jsLessEq_def)

lemma lossValueFloat_floor:
  "lossValueFloat sz dt df el sp ed delta c v = NaN \<or>
   nonNegative (lossValueFloat sz dt df el sp ed delta c v)"
  unfolding lossValueFloat_def Let_def by (rule floor_value)

text \<open>
  The floor at 0 of the loss pass: after a tick every cell of a world with
  \<open>size * size\<close> water cells is at least 0 or is \<open>NaN\<close>, never negative.
\<close>

lemma stepWaterFloat_cells:
  assumes "length (ws_water state) = ws_size state * ws_size state"
  shows "list_all (\<lambda>v. v = NaN \<or> nonNegative v) (ws_water (stepWaterFloat state params))"
proof -
  let ?dt = "jsMax (dbl (1 / 10000)) (Num (p_dt params))"
  obtain w1 where w1: "fold (injectSourceFloat ?dt) (ws_sources state) state = state\<lparr>ws_water := w1\<rparr>"
     "length w1 = length (ws_water state)"
    using fold_frame[of "injectSourceFloat ?dt", OF injectSourceFloat_frame] by blast
  let ?inj = "state\<lparr>ws_water := w1\<rparr>"
  have len: "length (ws_water ?inj) = ws_size ?inj * ws_size ?inj" using w1(2) assms by simp
  obtain df el sp ed delta where
    step: "stepWaterFloat state params
             = fold (lossCellFloat ?dt df el sp ed delta) (cells (ws_size ?inj)) ?inj"
    unfolding stepWaterFloat_def Let_def w1(1) by blast
  have flen: "length (ws_water (stepWaterFloat state params)) = ws_size state * ws_size state"
    unfolding step using len by (simp add: lossPassFloat_length)
  have "ws_water (stepWaterFloat state params) ! j = NaN \<or>
        nonNegative (ws_water (stepWaterFloat state params) ! j)"
    if j: "j < ws_size state * ws_size state" for j
  proof -
    obtain c where c: "c \<in> set (cells (ws_size ?inj))" "toIndex (ws_size ?inj) (fst c) (snd c) = j"
      using index_cells_surj[OF j] by auto
    show ?thesis
      unfolding step using lossPassFloat_nth[OF len c(1), of ?dt df el sp ed delta] c(2)
        lossValueFloat_floor by simp
  qed
  then show ?thesis using flen by (simp add: list_all_length)
qed

text \<open>
  Claim C2 at an overflow.  On the 2 by 2 world with water \<open>[1, 0, 0, 0]\<close> and flat
  terrain, a tick with \<open>dt = flowRate = 2 ^ 600\<close> (finite, non-negative) and no loss
  makes the outflow potential \<open>Infinity\<close>, the scale \<open>1 / Infinity = 0\<close> and the
  amount \<open>Infinity * 0 = NaN\<close>; \<open>Math.max(0, NaN)\<close> is \<open>NaN\<close>, so three cells
  of the water array end as \<open>NaN\<close>, which is not at least 0.
\<close>

theorem stepWaterFloat_overflow:
  "list_all nonNegative (ws_water pondWorld) \<and>
   0 \<le> p_dt surgeParams \<and> 0 \<le> p_flowRate surgeParams \<and>
   0 \<le> p_damping surgeParams \<and> 0 \<le> p_evaporation surgeParams \<and>
   ws_water (stepWaterFloat pondWorld surgeParams) = [NaN, NaN, NaN, Num 0] \<and>
   \<not> list_all nonNegative (ws_water (stepWaterFloat pondWorld surgeParams))"
  using surge_facts(3)
  by (simp add: pond_step) (simp add: pondWorld_def surgeParams_def nonNegative_def jsLessEq_def)

lemma lossValueFloat_still:
  assumes v: "0 \<le> u" "single u = Num u" and k: "toIndex sz (fst c) (snd c) < n"
  shows "lossValueFloat sz (Num d)
           (clampFloat (dblSub (Num 1) (dblMul (Num 0) (Num d))) (Num 0) (Num 1))
           (dblMul (Num 0) (Num d)) (Num 0) (Num 0) (replicate n (Num 0)) c (Num u) = Num u"
proof -
  have du: "dbl u = Num u" using dbl_of_single[OF v(2)] .
  have df: "clampFloat (dblSub (Num 1) (dblMul (Num 0) (Num d))) (Num 0) (Num 1) = Num 1"
    by (simp add: float_ops)
  have d0: "cellAt (replicate n (Num 0)) (toIndex sz (fst c) (snd c)) = Num 0"
    using k by (simp add: cellAt_def)
  show ?thesis
    unfolding lossValueFloat_def Let_def df d0
    using v by (simp add: du jsMax_def dblSub_def)
qed

lemma single_source_step:
  assumes wf: "wellFormedFloat state"
      and dry: "ws_water state = replicate (ws_size state * ws_size state) (Num 0)"
      and one: "filter src_active (ws_sources state) = [src]"
      and at: "jsRound (src_x src) = int x0" "jsRound (src_y src) = int y0"
      and inb: "x0 < ws_size state" "y0 < ws_size state"
      and rate: "0 \<le> src_rate src"
      and flowRate: "p_flowRate params = 0"
      and damping: "p_damping params = 0" and evaporation: "p_evaporation params = 0"
      and seepage: "orZero (p_seepage params) = 0" and edgeDrain: "orZero (p_edgeDrain params) = 0"
      and fin: "fround (dblMul (Num (src_rate src)) (jsMax (dbl (1 / 10000)) (Num (p_dt params))))
                  = Num v"
  shows "ws_water (stepWaterFloat state params) =
           (replicate (ws_size state * ws_size state) (Num 0))
             [toIndex (ws_size state) x0 y0 := Num v]"
proof -
  let ?sz = "ws_size state"
  let ?n = "?sz * ?sz"
  let ?w1 = "(replicate ?n (Num 0))[toIndex ?sz x0 y0 := Num v]"
  let ?inj = "state\<lparr>ws_water := ?w1\<rparr>"
  obtain d where d: "jsMax (dbl (1 / 10000)) (Num (p_dt params)) = Num d" "0 < d"
    using tick_floor_max by blast
  have z: "jsMax (Num 0) (Num 0) = Num 0" by (simp add: jsMax_def)
  have r: "jsMax (Num 0) (Num (src_rate src)) = Num (src_rate src)"
    using rate by (simp add: jsMax_def)
  have prod_nn: "0 \<le> src_rate src * d" using rate d(2) by simp
  from fin obtain q where q: "dbl (src_rate src * d) = Num q" and sq: "single q = Num v"
    unfolding d(1) by (cases "dbl (src_rate src * d)") simp_all
  have qnn: "0 \<le> q" using dbl_cases[OF prod_nn] q by simp
  have vnn: "0 \<le> v" using single_cases[OF qnn] sq by simp
  have sv: "single v = Num v" using single_idem[OF sq] .
  have act: "src_active src"
    using one by (metis filter_eq_Cons_iff)
  have idx: "nat (toIndex (int ?sz) (int x0) (int y0)) = toIndex ?sz x0 y0"
    by (simp add: toIndex_def nat_add_distrib nat_mult_distrib)
  have bound: "toIndex ?sz x0 y0 < ?n" using toIndex_bound[OF inb] .
  have stored: "fround (dblAdd (Num 0) (dblMul (Num (src_rate src)) (Num d))) = Num v"
    using dblAdd_0_dbl[of "src_rate src * d"] q sq by simp
  have "injectSourceFloat (Num d) src state = ?inj"
    using act inb bound stored
    by (simp add: injectSourceFloat_def Let_def at inBounds_def dry idx r cellAt_def)
  then have inj: "fold (injectSourceFloat (Num d)) (ws_sources state) state = ?inj"
    using fold_injectSourceFloat_active[of "Num d" "ws_sources state" state] one by simp
  have step: "stepWaterFloat state params
                = fold (lossCellFloat (Num d)
                         (clampFloat (dblSub (Num 1) (dblMul (Num 0) (Num d))) (Num 0) (Num 1))
                         (dblMul (Num 0) (Num d)) (Num 0) (Num 0) (replicate ?n (Num 0)))
                    (cells ?sz) ?inj"
    unfolding stepWaterFloat_def Let_def flowRate damping evaporation seepage edgeDrain d(1) z inj
    by (simp add: fold_flowCellFloat_zero_rate)
  have len: "length (ws_water ?inj) = ws_size ?inj * ws_size ?inj" by simp
  have flen: "length (ws_water (stepWaterFloat state params)) = ?n"
    unfolding step by (simp add: lossPassFloat_length)
  have cell: "\<exists>u. ?w1 ! j = Num u \<and> 0 \<le> u \<and> single u = Num u" if "j < ?n" for j
    using that vnn sv by (cases "j = toIndex ?sz x0 y0") simp_all
  have "ws_water (stepWaterFloat state params) ! j = ?w1 ! j" if j: "j < ?n" for j
  proof -
    obtain c where c: "c \<in> set (cells ?sz)" "toIndex ?sz (fst c) (snd c) = j"
      using index_cells_surj[OF j] by blast
    obtain u where u: "?w1 ! j = Num u" "0 \<le> u" "single u = Num u" using cell[OF j] by blast
    have k: "toIndex ?sz (fst c) (snd c) < ?n" using c(2) j by simp
    have "ws_water (stepWaterFloat state params) ! j
            = lossValueFloat ?sz (Num d)
                (clampFloat (dblSub (Num 1) (dblMul (Num 0) (Num d))) (Num 0) (Num 1))
                (dblMul (Num 0) (Num d)) (Num 0) (Num 0) (replicate ?n (Num 0)) c (?w1 ! j)"
      unfolding step
      using lossPassFloat_nth[OF len, of c "Num d" _ _ "Num 0" "Num 0" "replicate ?n (Num 0)"] c
      by simp
    also have "\<dots> = ?w1 ! j"
      unfolding u(1) using lossValueFloat_still[OF u(2,3) k] .
    finally show ?thesis .
  qed
  then show ?thesis using flen by (intro nth_equalityI) simp_all
qed

lemma spring_facts:
  "wellFormedFloat (springWorld rate)"
  "ws_water (springWorld rate) = replicate (ws_size (springWorld rate) * ws_size (springWorld rate)) (Num 0)"
  "filter src_active (ws_sources (springWorld rate)) = [hd (ws_sources (springWorld rate))]"
  "jsRound (src_x (hd (ws_sources (springWorld rate)))) = int 0"
  "jsRound (src_y (hd (ws_sources (springWorld rate)))) = int 0"
  "0 < ws_size (springWorld rate)"
  "src_rate (hd (ws_sources (springWorld rate))) = rate"
  by (simp_all add: springWorld_def wellFormedFloat_def jsRound_def)

lemma noLoss_facts:
  "p_dt (noLossParams dt) = dt"
  "p_flowRate (noLossParams dt) = 0" "p_damping (noLossParams dt) = 0"
  "p_evaporation (noLossParams dt) = 0"
  "orZero (p_seepage (noLossParams dt)) = 0" "orZero (p_edgeDrain (noLossParams dt)) = 0"
  by (simp_all add: noLossParams_def orZero_def)

lemma spring_brief:
  "ws_water (stepWaterFloat (springWorld 1) (noLossParams (1 / 32768))) = [fround (dbl (1 / 10000))]"
proof -
  obtain r where r: "dbl (1 / 10000) = Num r" using tick_floor by blast
  obtain v where v: "fround (dbl (1 / 10000)) = Num v" using tick_floor_single by blast
  have mx: "jsMax (dbl (1 / 10000)) (Num (1 / 32768)) = dbl (1 / 10000)"
    by (rule tick_floor_above) simp
  have fin: "fround (dblMul (Num (src_rate (hd (ws_sources (springWorld 1)))))
               (jsMax (dbl (1 / 10000)) (Num (p_dt (noLossParams (1 / 32768)))))) = Num v"
    unfolding spring_facts noLoss_facts mx using v r dbl_idem[OF r] by simp
  have "0 \<le> src_rate (hd (ws_sources (springWorld 1)))" by (simp add: spring_facts)
  from single_source_step[OF spring_facts(1,2,3,4,5,6,6) this noLoss_facts(2-6) fin]
  show ?thesis by (simp add: v springWorld_def toIndex_def)
qed

text \<open>
  Claim C5 as stated fails for a tick shorter than the solver's floor on \<open>dt\<close>: on the
  one-cell world with a source of rate 1, a tick of \<open>dt = 2 ^ - 15\<close> injects the 32-bit
  value of \<open>0.0001\<close>, not \<open>2 ^ - 15\<close>, because the solver works with
  \<open>Math.max(0.0001, dt)\<close>.
\<close>

theorem single_source_counterexample:
  "0 < p_dt (noLossParams (1 / 32768)) \<and>
   0 \<le> src_rate (hd (ws_sources (springWorld 1))) \<and>
   ws_water (stepWaterFloat (springWorld 1) (noLossParams (1 / 32768)))
     = [fround (dbl (1 / 10000))] \<and>
   ws_water (stepWaterFloat (springWorld 1) (noLossParams (1 / 32768)))
     \<noteq> [Num (src_rate (hd (ws_sources (springWorld 1))) * p_dt (noLossParams (1 / 32768)))]"
proof -
  obtain v where v: "fround (dbl (1 / 10000)) = Num v" "1 / 16384 \<le> v"
    using tick_floor_single by blast
  have "v \<noteq> 1 / 32768" using v(2) by simp
  then show ?thesis
    unfolding spring_brief v(1) by (simp add: spring_facts noLoss_facts)
qed

text \<open>
  Claim C5, amended.  A well-formed world with zero water and exactly one active source, whose
  rounded coordinates are the in-bounds cell \<open>(x0, y0)\<close> and whose rate is \<open>r \<ge> 0\<close>,
  stepped once with zero flow and loss coefficients, holds
  \<open>Math.fround(r * Math.max(0.0001, dt))\<close> in the source's cell, provided this 32-bit
  value is finite, and 0 in every other cell.
\<close>

theorem stepWaterFloat_single_source:
  assumes "wellFormedFloat state"
      and "ws_water state = replicate (ws_size state * ws_size state) (Num 0)"
      and "filter src_active (ws_sources state) = [src]"
      and "jsRound (src_x src) = int x0" "jsRound (src_y src) = int y0"
      and "x0 < ws_size state" "y0 < ws_size state"
      and "0 \<le> src_rate src"
      and "p_flowRate params = 0"
      and "p_damping params = 0" and "p_evaporation params = 0"
      and "orZero (p_seepage params) = 0" and "orZero (p_edgeDrain params) = 0"
      and "fround (dblMul (Num (src_rate src)) (jsMax (dbl (1 / 10000)) (Num (p_dt params))))
             = Num v"
  shows "ws_water (stepWaterFloat state params) =
           (replicate (ws_size state * ws_size state) (Num 0))
             [toIndex (ws_size state) x0 y0 := Num v]"
  using assms by (rule single_source_step)

text \<open>A concrete instance: the one-cell world, rate 1, one tick of 1/64 s.\<close>

theorem stepWaterFloat_single_source_witness:
  "wellFormedFloat (springWorld 1) \<and>
   ws_water (springWorld 1)
     = replicate (ws_size (springWorld 1) * ws_size (springWorld 1)) (Num 0) \<and>
   filter src_active (ws_sources (springWorld 1)) = [hd (ws_sources (springWorld 1))] \<and>
   jsRound (src_x (hd (ws_sources (springWorld 1)))) = int 0 \<and>
   jsRound (src_y (hd (ws_sources (springWorld 1)))) = int 0 \<and>
   0 < ws_size (springWorld 1) \<and>
   0 \<le> src_rate (hd (ws_sources (springWorld 1))) \<and>
   p_flowRate (noLossParams (1 / 64)) = 0 \<and> p_damping (noLossParams (1 / 64)) = 0 \<and>
   p_evaporation (noLossParams (1 / 64)) = 0 \<and>
   orZero (p_seepage (noLossParams (1 / 64))) = 0 \<and>
   orZero (p_edgeDrain (noLossParams (1 / 64))) = 0 \<and>
   fround (dblMul (Num (src_rate (hd (ws_sources (springWorld 1)))))
      (jsMax (dbl (1 / 10000)) (Num (p_dt (noLossParams (1 / 64)))))) = Num (1 / 64) \<and>
   ws_water (stepWaterFloat (springWorld 1) (noLossParams (1 / 64))) = [Num (1 / 64)]"
proof -
  have mx: "jsMax (dbl (1 / 10000)) (Num (1 / 64)) = Num (1 / 64)"
    by (rule tick_floor_below) simp
  have d: "dbl (1 / 64) = Num (1 / 64)" using dbl_pow2[of "- 6"] by simp
  have s: "single (1 / 64) = Num (1 / 64)" using single_pow2[of "- 6"] by simp
  have fin: "fround (dblMul (Num (src_rate (hd (ws_sources (springWorld 1)))))
               (jsMax (dbl (1 / 10000)) (Num (p_dt (noLossParams (1 / 64)))))) = Num (1 / 64)"
    unfolding spring_facts noLoss_facts mx by (simp add: d s)
  have rate: "0 \<le> src_rate (hd (ws_sources (springWorld 1)))" by (simp add: spring_facts)
  have "ws_water (stepWaterFloat (springWorld 1) (noLossParams (1 / 64))) = [Num (1 / 64)]"
    using stepWaterFloat_single_source[OF spring_facts(1,2,3,4,5,6,6) rate noLoss_facts(2-6) fin]
    by (simp add: springWorld_def toIndex_def)
  then show ?thesis
    using spring_facts(1-6)[of 1] rate noLoss_facts(2-6)[of "1 / 64"] fin by blast
qed

lemma torrent_facts:
  "dbl torrent = Num torrent" "single torrent = PosInf" "0 < torrent"
proof -
  have s: "torrent = 2 powi 128" by (simp add: torrent_def)
  show "dbl torrent = Num torrent" unfolding s by (rule dbl_pow2) simp_all
  show "single torrent = PosInf" unfolding s by (rule single_overflow) simp
  show "0 < torrent" by (simp add: torrent_def)
qed

text \<open>
  Where the injected amount exceeds the range of a 32-bit cell the cell holds \<open>Infinity\<close>
  after the injection and the loss pass turns it into \<open>NaN\<close> (the seepage term is
  \<open>Infinity * 0\<close>): rate \<open>2 ^ 128\<close>, \<open>dt = 1\<close>.
\<close>

lemma spring_torrent:
  "ws_water (stepWaterFloat (springWorld torrent) (noLossParams 1)) = [NaN]"
proof -
  have mx: "jsMax (dbl (1 / 10000)) (Num 1) = Num 1" by (rule tick_floor_below) simp
  have z: "jsMax (Num 0) (Num 0) = Num 0" by (simp add: jsMax_def)
  have inj: "fold (injectSourceFloat (Num 1)) (ws_sources (springWorld torrent)) (springWorld torrent)
               = (springWorld torrent)\<lparr>ws_water := [PosInf]\<rparr>"
    using torrent_facts
    by (simp add: springWorld_def injectSourceFloat_def jsRound_def inBounds_def toIndex_def
          Let_def jsMax_def cellAt_def)
  have "stepWaterFloat (springWorld torrent) (noLossParams 1)
          = fold (lossCellFloat (Num 1) (Num 1) (Num 0) (Num 0) (Num 0) [Num 0])
              (cells 1) ((springWorld torrent)\<lparr>ws_water := [PosInf]\<rparr>)"
    unfolding stepWaterFloat_def Let_def noLoss_facts mx z inj
    by (simp add: fold_flowCellFloat_zero_rate float_ops springWorld_def)
  then show ?thesis
    by (simp add: cells_1 lossCellFloat_def toIndex_def Let_def float_ops springWorld_def)
qed

end
